theory Spec2Isabelle
  imports Main "HOL-Library.Char_ord" "HOL-Library.List_Lexorder"
begin

section \<open>JavaScript strings and sets\<close>

text \<open>
  A JavaScript string is modelled as a \<^typ>\<open>string\<close>: the list of its code units, for
  code units below 256. A JavaScript \<open>Set\<close> of strings is modelled as the list of its
  members in insertion order, which is the order \<open>Array.from\<close> and the spread operator
  enumerate it in.
\<close>

definition startsWith :: "string \<Rightarrow> string \<Rightarrow> bool" where
  "startsWith s p = (take (length p) s = p)"

text \<open>\<open>s.includes(sub)\<close>: \<open>sub\<close> occurs in \<open>s\<close> as a contiguous substring.\<close>

fun includes_str :: "string \<Rightarrow> string \<Rightarrow> bool" where
  "includes_str [] sub = (sub = [])"
| "includes_str (c # cs) sub = (startsWith (c # cs) sub \<or> includes_str cs sub)"

text \<open>\<open>s.split(sep)\<close> for a one-character separator: never empty, \<open>''''.split(sep) = ['''']\<close>.\<close>

fun split_on :: "char \<Rightarrow> string \<Rightarrow> string list" where
  "split_on sep [] = [[]]"
| "split_on sep (c # cs) =
     (if c = sep then [] # split_on sep cs
      else (case split_on sep cs of
              [] \<Rightarrow> [[c]]
            | l # ls \<Rightarrow> (c # l) # ls))"

text \<open>\<open>lines.join(sep)\<close>.\<close>

fun join :: "string \<Rightarrow> string list \<Rightarrow> string" where
  "join sep [] = []"
| "join sep [l] = l"
| "join sep (l # m # ls) = l @ sep @ join sep (m # ls)"

text \<open>
  The code units that \<open>String.prototype.trim\<close> and the regular expression class \<open>\s\<close>
  treat as white space (WhiteSpace and LineTerminator of ECMAScript), below 256:
  TAB, LF, VT, FF, CR, SPACE and NO-BREAK SPACE.
\<close>

definition isWhiteSpace :: "char \<Rightarrow> bool" where
  "isWhiteSpace c =
     (c = CHR 0x09 \<or> c = CHR 0x0A \<or> c = CHR 0x0B \<or> c = CHR 0x0C \<or> c = CHR 0x0D
      \<or> c = CHR 0x20 \<or> c = CHR 0xA0)"

definition trim :: "string \<Rightarrow> string" where
  "trim s = rev (dropWhile isWhiteSpace (rev (dropWhile isWhiteSpace s)))"

text \<open>\<open>set.add(x)\<close> and \<open>set.delete(x)\<close> on a set kept in insertion order.\<close>

definition set_add :: "'a \<Rightarrow> 'a list \<Rightarrow> 'a list" where
  "set_add x xs = (if x \<in> set xs then xs else xs @ [x])"

definition set_delete :: "'a \<Rightarrow> 'a list \<Rightarrow> 'a list" where
  "set_delete x xs = removeAll x xs"

text \<open>\<open>new Set(xs)\<close>: the members of \<open>xs\<close> in the order of their first occurrence.\<close>

definition new_Set :: "'a list \<Rightarrow> 'a list" where
  "new_Set xs = foldl (\<lambda>s x. set_add x s) [] xs"


section \<open>The text-to-JSON converter (convert-pathnames-to-json.mjs)\<close>

record metadata =
  totalPathnames :: nat
  generatedAt :: string
  sourceFile :: string

record json_data =
  site :: string
  base :: string
  pathnames :: "string list"
  metadata :: metadata

text \<open>\<open>s.replace(pat, rep)\<close> for a string pattern: the first occurrence only.\<close>

fun replace_first :: "string \<Rightarrow> string \<Rightarrow> string \<Rightarrow> string" where
  "replace_first [] pat rep = (if pat = [] then rep else [])"
| "replace_first (c # cs) pat rep =
     (if startsWith (c # cs) pat then rep @ drop (length pat) (c # cs)
      else c # replace_first cs pat rep)"

text \<open>
  \<open>convertPathnamesToJson(inputFile, outputFile)\<close>, up to the object that is serialised.
  The file system and the clock are parameters: \<open>readFile\<close> is the outcome of
  \<open>fs.readFile(inputFile, 'utf8')\<close> (\<open>Inl\<close> the error message, after which the
  process exits with status 1), \<open>basename\<close> is Node's \<open>path.basename\<close>, \<open>now\<close> the
  ISO time stamp.
\<close>

definition convertPathnamesToJson ::
  "(string \<Rightarrow> string + string) \<Rightarrow> (string \<Rightarrow> string \<Rightarrow> string) \<Rightarrow> string \<Rightarrow> string
     \<Rightarrow> string + json_data" where
  "convertPathnamesToJson readFile basename now inputFile =
     (case readFile inputFile of
        Inl err \<Rightarrow> Inl err
      | Inr content \<Rightarrow>
          (let pathnames = filter (\<lambda>line. length line > 0)
                             (map (\<lambda>line. trim line) (split_on CHR 0x0A content));
               siteName = replace_first (basename inputFile ''.txt'') ''-pathnames'' []
           in Inr \<lparr> site = siteName,
                    base = ''https://www.'' @ siteName @ ''.com'',
                    pathnames = pathnames,
                    metadata = \<lparr> totalPathnames = length pathnames,
                                 generatedAt = now,
                                 sourceFile = inputFile \<rparr> \<rparr>))"


section \<open>The redirect auditor (audit-redirect.js)\<close>

text \<open>
  The \<open>status\<close> column of a failure row is the HTTP status of the response, or the
  string \<open>'Error'\<close> when the request itself failed.
\<close>

datatype row_status = Status nat | StatusError

record failed_redirect =
  fr_from :: string
  fr_expected :: string
  fr_actual :: string
  fr_status :: row_status

text \<open>
  What the code reads of the two responses: of the one fetched with
  \<open>redirect: 'manual'\<close> the status and the \<open>location\<close> header, of the one fetched with
  \<open>redirect: 'follow'\<close> the final URL and the final status.
\<close>

record manual_response =
  m_status :: nat
  m_location :: "string option"

record follow_response =
  f_url :: string
  f_status :: nat

text \<open>The constant \<open>baseUrl\<close> of audit-redirect.js.\<close>

definition baseUrl_audit :: string where
  "baseUrl_audit = ''https://www.condo-world.com''"

definition error_row :: "string \<Rightarrow> string \<Rightarrow> string \<Rightarrow> failed_redirect" where
  "error_row fromUrl expectedToUrl message =
     \<lparr> fr_from = fromUrl, fr_expected = expectedToUrl,
       fr_actual = ''Error: '' @ message, fr_status = StatusError \<rparr>"

text \<open>
  \<open>checkRedirect(fromUrl, expectedToUrl)\<close>. The network is a pair of parameters, one per
  redirect mode, from the requested URL to the response or (\<open>Inl\<close>) the message of the
  error that \<open>fetch\<close> throws; the global array \<open>failedRedirects\<close> is passed in and
  returned. An error of either request is caught by the one \<open>catch\<close> block.
\<close>

definition checkRedirect ::
  "(string \<Rightarrow> string + manual_response) \<Rightarrow> (string \<Rightarrow> string + follow_response)
     \<Rightarrow> string \<Rightarrow> string \<Rightarrow> failed_redirect list \<Rightarrow> failed_redirect list" where
  "checkRedirect fetchManual fetchFollow fromUrl expectedToUrl failedRedirects =
     (case fetchManual (baseUrl_audit @ fromUrl) of
        Inl err \<Rightarrow> failedRedirects @ [error_row fromUrl expectedToUrl err]
      | Inr response \<Rightarrow>
          (let status = m_status response in
           if status = 301 \<or> status = 302 \<or> status = 308 \<or> status = 307 then
             (case fetchFollow (baseUrl_audit @ fromUrl) of
                Inl err \<Rightarrow> failedRedirects @ [error_row fromUrl expectedToUrl err]
              | Inr followResponse \<Rightarrow>
                  (let followLocation = f_url followResponse;
                       followStatus = f_status followResponse
                   in if followLocation = baseUrl_audit @ expectedToUrl \<or> followStatus = 200
                      then failedRedirects
                      else failedRedirects @
                        [\<lparr> fr_from = fromUrl, fr_expected = expectedToUrl,
                           fr_actual = followLocation, fr_status = Status followStatus \<rparr>]))
           else if status = 200 then failedRedirects
           else failedRedirects @
                  [\<lparr> fr_from = fromUrl, fr_expected = expectedToUrl,
                     fr_actual = [], fr_status = Status status \<rparr>]))"

text \<open>\<open>auditRedirects()\<close>: the rows of the CSV file, one after the other.\<close>

definition auditRedirects ::
  "(string \<Rightarrow> string + manual_response) \<Rightarrow> (string \<Rightarrow> string + follow_response)
     \<Rightarrow> (string \<times> string) list \<Rightarrow> failed_redirect list \<Rightarrow> failed_redirect list" where
  "auditRedirects fetchManual fetchFollow redirects failedRedirects =
     foldl (\<lambda>failed (from, to). checkRedirect fetchManual fetchFollow from to failed)
       failedRedirects redirects"

text \<open>
  The claim's words, for comparison with the code: the old URL \<^emph>\<open>correctly redirects\<close> to
  the expected new URL when it answers with a redirect status and following the
  redirect ends at \<open>baseUrl + new\<close>.
\<close>

definition correctly_redirects ::
  "(string \<Rightarrow> string + manual_response) \<Rightarrow> (string \<Rightarrow> string + follow_response)
     \<Rightarrow> string \<Rightarrow> string \<Rightarrow> bool" where
  "correctly_redirects fetchManual fetchFollow old new =
     (case fetchManual (baseUrl_audit @ old) of
        Inl err \<Rightarrow> False
      | Inr r \<Rightarrow>
          (m_status r = 301 \<or> m_status r = 302 \<or> m_status r = 307 \<or> m_status r = 308) \<and>
          (case fetchFollow (baseUrl_audit @ old) of
             Inl err \<Rightarrow> False
           | Inr f \<Rightarrow> f_url f = baseUrl_audit @ new))"

text \<open>
  What the code records instead: a failed request; a first response that is neither a
  redirect nor 200; or a redirect whose followed response neither ends at
  \<open>baseUrl + new\<close> nor has status 200.
\<close>

definition recorded_as_failure ::
  "(string \<Rightarrow> string + manual_response) \<Rightarrow> (string \<Rightarrow> string + follow_response)
     \<Rightarrow> string \<Rightarrow> string \<Rightarrow> bool" where
  "recorded_as_failure fetchManual fetchFollow old new =
     (case fetchManual (baseUrl_audit @ old) of
        Inl err \<Rightarrow> True
      | Inr r \<Rightarrow>
          if m_status r = 301 \<or> m_status r = 302 \<or> m_status r = 307 \<or> m_status r = 308
          then (case fetchFollow (baseUrl_audit @ old) of
                  Inl err \<Rightarrow> True
                | Inr f \<Rightarrow> f_url f \<noteq> baseUrl_audit @ new \<and> f_status f \<noteq> 200)
          else m_status r \<noteq> 200)"


section \<open>The link crawler (crawl-urls.mjs): URLs and pathnames\<close>

text \<open>
  The fields the crawler reads of a WHATWG \<open>URL\<close> object. The URL parser of the platform
  is a parameter of the model: \<open>parseURL s\<close> is \<open>new URL(s)\<close>, \<open>None\<close> when the
  constructor throws. Every property below holds for every parser.
\<close>

record url_obj =
  url_href :: string
  url_protocol :: string
  url_origin :: string
  url_hostname :: string
  url_pathname :: string

text \<open>
  The regular expression \<open>/^\/[^\/]*C/\<close> for a character class \<open>C\<close> without \<open>/\<close>: the
  string starts with \<open>/\<close>, and a character of \<open>C\<close> stands before the next \<open>/\<close>.
\<close>

definition leading_segment_has :: "(char \<Rightarrow> bool) \<Rightarrow> string \<Rightarrow> bool" where
  "leading_segment_has C s =
     (case s of
        [] \<Rightarrow> False
      | c # rest \<Rightarrow> c = CHR ''/'' \<and> list_ex C (takeWhile (\<lambda>x. x \<noteq> CHR ''/'') rest))"

text \<open>\<open>isValidUrl(url)\<close>.\<close>

definition isValidUrl :: "(string \<Rightarrow> url_obj option) \<Rightarrow> string \<Rightarrow> bool" where
  "isValidUrl parseURL url =
     (case parseURL url of
        None \<Rightarrow> False
      | Some urlObj \<Rightarrow>
          (let path = url_pathname urlObj in
           if includes_str path ''%3E'' \<or> includes_str path ''%3C'' \<or> includes_str path ''%20''
             then False
           else if includes_str path ''<'' \<or> includes_str path ''>'' then False
           else if leading_segment_has (\<lambda>c. c = CHR ''<'' \<or> c = CHR ''>'') path then False
           else if includes_str path ''class='' \<or> includes_str path ''id=''
                   \<or> includes_str path ''style='' then False
           else if length path > 200 then False
           else if includes_str path ''%%'' then False
           else True))"

text \<open>\<open>isValidPathname(pathname)\<close>.\<close>

definition isValidPathname :: "string \<Rightarrow> bool" where
  "isValidPathname path =
     (if path = [] \<or> path = ''/'' then True
      else if includes_str path ''%3E'' \<or> includes_str path ''%3C'' \<or> includes_str path ''%20''
        then False
      else if includes_str path ''<'' \<or> includes_str path ''>'' then False
      else if leading_segment_has (\<lambda>c. c = CHR ''<'' \<or> c = CHR ''>'') path then False
      else if includes_str path ''class='' \<or> includes_str path ''id=''
              \<or> includes_str path ''style='' then False
      else if length path > 200 then False
      else if includes_str path ''%%'' then False
      else if leading_segment_has (\<lambda>c. c = CHR ''='') path
              \<or> leading_segment_has isWhiteSpace path then False
      else True)"

text \<open>\<open>s.split(sep)[0]\<close>.\<close>

definition first_piece :: "char \<Rightarrow> string \<Rightarrow> string" where
  "first_piece sep s = (case split_on sep s of [] \<Rightarrow> [] | piece # rest \<Rightarrow> piece)"

text \<open>
  \<open>cleanPathname(pathname)\<close>. \<open>decodeURIComponent\<close> is a parameter: \<open>None\<close> when it
  throws, in which case the pathname is kept as it is.
\<close>

definition cleanPathname :: "(string \<Rightarrow> string option) \<Rightarrow> string \<Rightarrow> string" where
  "cleanPathname decodeURIComponent path =
     (let decoded = (case decodeURIComponent path of Some d \<Rightarrow> d | None \<Rightarrow> path);
          stripped = first_piece CHR ''#'' (first_piece CHR ''?'' decoded)
      in if \<not> startsWith stripped ''/'' then ''/'' @ stripped else stripped)"

text \<open>
  \<open>extractPathnames(urls, baseUrl)\<close>. \<open>Array.prototype.sort\<close> without a comparator
  orders strings by their code units, lexicographically: the order of \<^typ>\<open>string\<close>.
\<close>

definition extractPathnames ::
  "(string \<Rightarrow> url_obj option) \<Rightarrow> (string \<Rightarrow> string option) \<Rightarrow> string list \<Rightarrow> url_obj
     \<Rightarrow> string list" where
  "extractPathnames parseURL decodeURIComponent urls baseUrl =
     (let host = url_hostname baseUrl in
      sort (new_Set
        (filter (\<lambda>path. isValidPathname path)
          (map (\<lambda>url. case parseURL url of
                         Some u \<Rightarrow> cleanPathname decodeURIComponent
                                     (if url_pathname u = [] then ''/'' else url_pathname u)
                       | None \<Rightarrow> ''/'')
            (filter (\<lambda>url. case parseURL url of
                              Some u \<Rightarrow> url_hostname u = host
                            | None \<Rightarrow> False)
               urls)))))"


section \<open>The link crawler: fetching and crawling\<close>

text \<open>The five regular expressions of \<open>extractUrls\<close>, in the order they are applied.\<close>

datatype pattern = HrefPattern | SrcPattern | ActionPattern | JsPattern | DataPattern

text \<open>What \<open>fetchPage\<close> reads of a response of \<open>fetch\<close>.\<close>

record response =
  resp_ok :: bool
  resp_status :: nat
  resp_content_type :: "string option"
  resp_text :: string

text \<open>
  The platform the crawler runs on. Everything here is a parameter, and the properties
  below hold for every platform:
  \<^item> \<open>new_URL s\<close> is \<open>new URL(s)\<close> and \<open>new_URL_base s b\<close> is \<open>new URL(s, b)\<close>,
    \<open>None\<close> when the constructor throws;
  \<^item> \<open>matchAll p html\<close> is \<open>[...html.matchAll(p)].map(m => m[1])\<close>: the first capture
    group of every match of the pattern, in order;
  \<^item> \<open>fetch log url\<close> is the outcome of the request for \<open>url\<close> issued after the requests
    for \<open>log\<close>: the response, or (\<open>Inl\<close>) the message of the error thrown while the
    response is awaited or its body read;
  \<^item> \<open>scheduler\<close> picks which of the pending requests of a batch completes next, given
    their URLs (its value is taken modulo their number).
\<close>

record platform =
  new_URL :: "string \<Rightarrow> url_obj option"
  new_URL_base :: "string \<Rightarrow> string \<Rightarrow> url_obj option"
  matchAll :: "pattern \<Rightarrow> string \<Rightarrow> string list"
  fetch :: "string list \<Rightarrow> string \<Rightarrow> string + response"
  scheduler :: "string list \<Rightarrow> nat"

text \<open>\<open>normalizeUrl(url, baseUrl)\<close>: the \<open>href\<close> of the resolved URL, or \<open>null\<close>.\<close>

definition normalizeUrl :: "platform \<Rightarrow> string \<Rightarrow> url_obj \<Rightarrow> string option" where
  "normalizeUrl P url baseUrl =
     (if url = [] then None
      else if startsWith url ''http://'' \<or> startsWith url ''https://''
        then map_option url_href (new_URL P url)
      else if startsWith url ''//''
        then map_option url_href (new_URL P (url_protocol baseUrl @ url))
      else if startsWith url ''/''
        then map_option url_href (new_URL_base P url (url_origin baseUrl))
      else map_option url_href (new_URL_base P url (url_href baseUrl)))"

text \<open>\<open>isSameDomain(url, baseUrl)\<close>.\<close>

definition isSameDomain :: "platform \<Rightarrow> string \<Rightarrow> url_obj \<Rightarrow> bool" where
  "isSameDomain P url baseUrl =
     (case new_URL P url of
        None \<Rightarrow> False
      | Some urlObj \<Rightarrow> url_hostname urlObj = url_hostname baseUrl)"

text \<open>
  The body of each of the five \<open>forEach\<close> loops of \<open>extractUrls\<close>: a match is added to
  the set \<open>urls\<close> when it normalises to a non-empty string (\<open>url &&\<close>) of the same domain
  that is valid.
\<close>

definition addMatch :: "platform \<Rightarrow> url_obj \<Rightarrow> string list \<Rightarrow> string \<Rightarrow> string list" where
  "addMatch P baseUrl urls m =
     (case normalizeUrl P m baseUrl of
        None \<Rightarrow> urls
      | Some url \<Rightarrow>
          if url \<noteq> [] \<and> isSameDomain P url baseUrl \<and> isValidUrl (new_URL P) url
          then set_add url urls else urls)"

text \<open>\<open>extractUrls(html, baseUrl)\<close>.\<close>

definition extractUrls :: "platform \<Rightarrow> string \<Rightarrow> url_obj \<Rightarrow> string list" where
  "extractUrls P html baseUrl =
     foldl (\<lambda>urls p. foldl (addMatch P baseUrl) urls (matchAll P p html)) []
       [HrefPattern, SrcPattern, ActionPattern, JsPattern, DataPattern]"

text \<open>Decimal digits of a number, as a template literal prints it.\<close>

fun show_nat :: "nat \<Rightarrow> string" where
  "show_nat n =
     (if n < 10 then [char_of (48 + n)]
      else show_nat (n div 10) @ [char_of (48 + n mod 10)])"

text \<open>
  \<open>fetchPage(url)\<close>, for the outcome of the request: the text of the page, or (\<open>Inl\<close>)
  the message of the error it throws.
\<close>

definition fetchPage :: "(string \<Rightarrow> string + response) \<Rightarrow> string \<Rightarrow> string + string" where
  "fetchPage request url =
     (case request url of
        Inl message \<Rightarrow> Inl (''Failed to fetch '' @ url @ '': '' @ message)
      | Inr response \<Rightarrow>
          if \<not> resp_ok response
            then Inl (''Failed to fetch '' @ url @ '': '' @ ''HTTP '' @ show_nat (resp_status response))
          else
            (let contentType = (case resp_content_type response of Some c \<Rightarrow> c | None \<Rightarrow> [])
             in if \<not> includes_str contentType ''text/html''
                  then Inl (''Failed to fetch '' @ url @ '': '' @ ''Not HTML content: '' @ contentType)
                else Inr (resp_text response)))"

text \<open>
  The variables of \<open>crawlWebsite\<close>. The sets are lists in insertion order; \<open>fetched\<close> is
  not a variable of the program but the log of the calls of \<open>fetchPage\<close>, in the order
  they are made.
\<close>

record crawl_state =
  visited :: "string list"
  toVisit :: "string list"
  discoveredUrls :: "string list"
  errors :: "(string \<times> string) list"
  pagesProcessed :: nat
  fetched :: "string list"

text \<open>
  A batch runs in two phases, as the tasks of \<open>currentBatch.map(async (url) => ...)\<close>
  do. Each task runs at once up to its first \<open>await\<close>, in the order of the batch: it
  returns if the URL is visited, else marks it visited, counts it and issues the request.
  \<open>startTasks\<close> is this first phase; it returns the state and the pending tasks, each with
  the outcome its \<open>fetchPage\<close> will have.
\<close>

fun startTasks ::
  "platform \<Rightarrow> string list \<Rightarrow> crawl_state \<Rightarrow> (string \<times> (string + string)) list
     \<Rightarrow> crawl_state \<times> (string \<times> (string + string)) list" where
  "startTasks P [] st pending = (st, pending)"
| "startTasks P (url # batch) st pending =
     (if url \<in> set (visited st) then startTasks P batch st pending
      else startTasks P batch
             (st\<lparr> visited := set_add url (visited st),
                  pagesProcessed := pagesProcessed st + 1,
                  fetched := fetched st @ [url] \<rparr>)
             (pending @ [(url, fetchPage (fetch P (fetched st)) url)]))"

text \<open>
  The body of \<open>foundUrls.forEach\<close>: the found URL is recorded as discovered, and queued
  when the depth of the page it was found on, the number of \<open>/\<close> in that page's URL
  minus 2, is below \<open>maxDepth\<close> and it is not visited. \<open>maxPages\<close> and \<open>maxDepth\<close> are
  integers (\<open>NaN\<close>, which \<open>parseInt\<close> can return, compares like a bound that nothing is
  below).
\<close>

definition urlDepth :: "string \<Rightarrow> int" where
  "urlDepth url = int (count_list url CHR ''/'') - 2"

definition addFound :: "int \<Rightarrow> string \<Rightarrow> crawl_state \<Rightarrow> string \<Rightarrow> crawl_state" where
  "addFound maxDepth url st foundUrl =
     (let st' = st\<lparr> discoveredUrls := set_add foundUrl (discoveredUrls st) \<rparr>
      in if urlDepth url < maxDepth \<and> foundUrl \<notin> set (visited st')
         then st'\<lparr> toVisit := set_add foundUrl (toVisit st') \<rparr>
         else st')"

text \<open>
  The rest of a task, run when its request has completed: the \<open>try\<close> block after
  \<open>await fetchPage(url)\<close>, or the \<open>catch\<close> block.
\<close>

definition finishTask ::
  "platform \<Rightarrow> int \<Rightarrow> url_obj \<Rightarrow> string \<Rightarrow> string + string \<Rightarrow> crawl_state \<Rightarrow> crawl_state" where
  "finishTask P maxDepth baseUrl url outcome st =
     (case outcome of
        Inr html \<Rightarrow> foldl (addFound maxDepth url) st (extractUrls P html baseUrl)
      | Inl message \<Rightarrow> st\<lparr> errors := errors st @ [(url, message)] \<rparr>)"

text \<open>
  The second phase: the pending tasks finish one at a time, in the order the scheduler
  picks, until \<open>Promise.all\<close> is settled.
\<close>

function finishTasks ::
  "platform \<Rightarrow> int \<Rightarrow> url_obj \<Rightarrow> (string \<times> (string + string)) list \<Rightarrow> crawl_state
     \<Rightarrow> crawl_state" where
  "finishTasks P maxDepth baseUrl pending st =
     (if pending = [] then st
      else
        (let i = scheduler P (map fst pending) mod length pending;
             task = pending ! i
         in finishTasks P maxDepth baseUrl (take i pending @ drop (Suc i) pending)
              (finishTask P maxDepth baseUrl (fst task) (snd task) st)))"
  by pat_completeness auto
termination
proof (relation "measure (\<lambda>(P, maxDepth, baseUrl, pending, st). length pending)")
  show "wf (measure (\<lambda>(P, maxDepth, baseUrl, pending, st). length pending))"
    by simp
next
  fix P :: platform and maxDepth :: int and baseUrl :: url_obj
    and pending :: "(string \<times> (string + string)) list" and st :: crawl_state and i task
  assume ne: "pending \<noteq> []" and i: "i = scheduler P (map fst pending) mod length pending"
  have "i < length pending"
    using ne i by simp
  then show "((P, maxDepth, baseUrl, take i pending @ drop (Suc i) pending,
               finishTask P maxDepth baseUrl (fst task) (snd task) st),
              (P, maxDepth, baseUrl, pending, st))
             \<in> measure (\<lambda>(P, maxDepth, baseUrl, pending, st). length pending)"
    by simp
qed

declare finishTasks.simps [simp del]

lemma finishTasks_Nil: "finishTasks P maxDepth baseUrl [] st = st"
  by (subst finishTasks.simps) simp

text \<open>
  One iteration of the \<open>while\<close> loop: the first 10 members of \<open>toVisit\<close> are taken out
  of it, and their tasks run.
\<close>

definition processBatch :: "platform \<Rightarrow> int \<Rightarrow> url_obj \<Rightarrow> crawl_state \<Rightarrow> crawl_state" where
  "processBatch P maxDepth baseUrl st =
     (let currentBatch = take 10 (toVisit st);
          st' = st\<lparr> toVisit := foldl (\<lambda>s url. set_delete url s) (toVisit st) currentBatch \<rparr>;
          started = startTasks P currentBatch st' []
      in finishTasks P maxDepth baseUrl (snd started) (fst started))"

lemma startTasks_counts:
  "startTasks P batch st pending = (st', pending')
     \<Longrightarrow> pagesProcessed st' + length pending = pagesProcessed st + length pending'
         \<and> toVisit st' = toVisit st"
proof (induction batch arbitrary: st pending)
  case Nil
  then show ?case by simp
next
  case (Cons url batch)
  show ?case
  proof (cases "url \<in> set (visited st)")
    case True
    then show ?thesis using Cons.IH [of st pending] Cons.prems by simp
  next
    case False
    then show ?thesis
      using Cons.IH [of "st\<lparr> visited := set_add url (visited st),
                             pagesProcessed := pagesProcessed st + 1,
                             fetched := fetched st @ [url] \<rparr>"
                        "pending @ [(url, fetchPage (fetch P (fetched st)) url)]"] Cons.prems
      by simp
  qed
qed

lemma addFound_pagesProcessed: "pagesProcessed (addFound maxDepth url st foundUrl) = pagesProcessed st"
  by (simp add: addFound_def Let_def)

lemma foldl_addFound_pagesProcessed:
  "pagesProcessed (foldl (addFound maxDepth url) st found) = pagesProcessed st"
  by (induction found arbitrary: st) (simp_all add: addFound_pagesProcessed)

lemma finishTask_pagesProcessed:
  "pagesProcessed (finishTask P maxDepth baseUrl url outcome st) = pagesProcessed st"
  by (cases outcome) (simp_all add: finishTask_def foldl_addFound_pagesProcessed)

lemma finishTasks_pagesProcessed:
  "pagesProcessed (finishTasks P maxDepth baseUrl pending st) = pagesProcessed st"
proof (induction P maxDepth baseUrl pending st rule: finishTasks.induct)
  case (1 P maxDepth baseUrl pending st)
  show ?case
  proof (cases "pending = []")
    case True
    then show ?thesis by (simp add: finishTasks_Nil)
  next
    case False
    then show ?thesis
      using "1" [OF False refl refl]
      by (subst finishTasks.simps) (simp add: Let_def finishTask_pagesProcessed)
  qed
qed

lemma foldl_set_delete_length:
  "length (foldl (\<lambda>s url. set_delete url s) xs batch) \<le> length xs"
proof (induction batch arbitrary: xs)
  case Nil
  show ?case by simp
next
  case (Cons b batch)
  have "length (foldl (\<lambda>s url. set_delete url s) (set_delete b xs) batch) \<le> length (set_delete b xs)"
    by (rule Cons.IH)
  also have "\<dots> \<le> length xs"
    by (simp add: set_delete_def length_removeAll_less_eq)
  finally show ?case by simp
qed

lemma processBatch_progress:
  assumes "toVisit st \<noteq> []"
  shows "pagesProcessed st < pagesProcessed (processBatch P maxDepth baseUrl st)
         \<or> (pagesProcessed (processBatch P maxDepth baseUrl st) = pagesProcessed st
            \<and> length (toVisit (processBatch P maxDepth baseUrl st)) < length (toVisit st))"
proof -
  let ?batch = "take 10 (toVisit st)"
  let ?st' = "st\<lparr> toVisit := foldl (\<lambda>s url. set_delete url s) (toVisit st) ?batch \<rparr>"
  obtain st2 pending where started: "startTasks P ?batch ?st' [] = (st2, pending)"
    by (cases "startTasks P ?batch ?st' []") auto
  have pb: "processBatch P maxDepth baseUrl st = finishTasks P maxDepth baseUrl pending st2"
    by (simp add: processBatch_def Let_def started)
  have counts: "pagesProcessed st2 = pagesProcessed st + length pending"
    and tv: "toVisit st2 = toVisit ?st'"
    using startTasks_counts [OF started] by simp_all
  show ?thesis
  proof (cases "pending = []")
    case True
    obtain u rest where tvs: "toVisit st = u # rest"
      using assms by (cases "toVisit st") auto
    have "length (toVisit ?st') \<le> length (set_delete u (u # rest))"
      using foldl_set_delete_length [of "set_delete u (u # rest)" "take 9 rest"]
      by (simp add: tvs)
    also have "\<dots> < length (u # rest)"
      by (simp add: set_delete_def length_removeAll_less_eq less_Suc_eq_le)
    finally have "length (toVisit ?st') < length (toVisit st)"
      by (simp add: tvs)
    then show ?thesis
      using True pb counts tv by (simp add: finishTasks_Nil)
  next
    case False
    then show ?thesis
      using pb counts by (simp add: finishTasks_pagesProcessed)
  qed
qed

text \<open>The \<open>while\<close> loop of \<open>crawlWebsite\<close>.\<close>

function crawlLoop :: "platform \<Rightarrow> int \<Rightarrow> int \<Rightarrow> url_obj \<Rightarrow> crawl_state \<Rightarrow> crawl_state" where
  "crawlLoop P maxPages maxDepth baseUrl st =
     (if length (toVisit st) > 0 \<and> int (pagesProcessed st) < maxPages
      then crawlLoop P maxPages maxDepth baseUrl (processBatch P maxDepth baseUrl st)
      else st)"
  by pat_completeness auto
termination
proof (relation "measures [\<lambda>(P, maxPages, maxDepth, baseUrl, st). nat (maxPages - int (pagesProcessed st)),
                           \<lambda>(P, maxPages, maxDepth, baseUrl, st). length (toVisit st)]")
  show "wf (measures [\<lambda>(P, maxPages, maxDepth, baseUrl, st). nat (maxPages - int (pagesProcessed st)),
                      \<lambda>(P, maxPages, maxDepth, baseUrl, st). length (toVisit st)])"
    by simp
next
  fix P :: platform and maxPages maxDepth :: int and baseUrl :: url_obj and st :: crawl_state
  assume "0 < length (toVisit st) \<and> int (pagesProcessed st) < maxPages"
  then show "((P, maxPages, maxDepth, baseUrl, processBatch P maxDepth baseUrl st),
              (P, maxPages, maxDepth, baseUrl, st))
             \<in> measures [\<lambda>(P, maxPages, maxDepth, baseUrl, st). nat (maxPages - int (pagesProcessed st)),
                          \<lambda>(P, maxPages, maxDepth, baseUrl, st). length (toVisit st)]"
    using processBatch_progress [of st P maxDepth baseUrl] by auto
qed

declare crawlLoop.simps [simp del]

lemma crawlLoop_continue:
  "toVisit st \<noteq> [] \<Longrightarrow> int (pagesProcessed st) < maxPages
     \<Longrightarrow> crawlLoop P maxPages maxDepth baseUrl st
         = crawlLoop P maxPages maxDepth baseUrl (processBatch P maxDepth baseUrl st)"
  by (subst crawlLoop.simps) simp

lemma crawlLoop_stop:
  "toVisit st = [] \<or> \<not> int (pagesProcessed st) < maxPages
     \<Longrightarrow> crawlLoop P maxPages maxDepth baseUrl st = st"
  by (subst crawlLoop.simps) auto

text \<open>The result object of \<open>crawlWebsite\<close>.\<close>

record crawl_result =
  r_urls :: "string list"
  r_errors :: "(string \<times> string) list"
  r_pagesProcessed :: nat
  r_totalDiscovered :: nat

text \<open>The variables of \<open>crawlWebsite\<close> when the loop is entered.\<close>

definition initial_state :: "string \<Rightarrow> crawl_state" where
  "initial_state startUrl =
     \<lparr> visited = [], toVisit = [startUrl], discoveredUrls = [], errors = [],
       pagesProcessed = 0, fetched = [] \<rparr>"

text \<open>The state in which the loop of \<open>crawlWebsite(startUrl, maxPages, maxDepth)\<close> ends.\<close>

definition crawlFinal :: "platform \<Rightarrow> string \<Rightarrow> int \<Rightarrow> int \<Rightarrow> url_obj \<Rightarrow> crawl_state" where
  "crawlFinal P startUrl maxPages maxDepth baseUrl =
     crawlLoop P maxPages maxDepth baseUrl (initial_state startUrl)"

text \<open>
  \<open>crawlWebsite(startUrl, maxPages, maxDepth)\<close>: \<open>None\<close> when \<open>new URL(startUrl)\<close>
  throws.
\<close>

definition crawlWebsite :: "platform \<Rightarrow> string \<Rightarrow> int \<Rightarrow> int \<Rightarrow> crawl_result option" where
  "crawlWebsite P startUrl maxPages maxDepth =
     (case new_URL P startUrl of
        None \<Rightarrow> None
      | Some baseUrl \<Rightarrow>
          (let st = crawlFinal P startUrl maxPages maxDepth baseUrl
           in Some \<lparr> r_urls = sort (discoveredUrls st),
                     r_errors = errors st,
                     r_pagesProcessed = pagesProcessed st,
                     r_totalDiscovered = length (discoveredUrls st) \<rparr>))"


section \<open>The link crawler: the main function\<close>

text \<open>The regular expression \<open>/^https?:\/\//i\<close>.\<close>

fun test_http_scheme :: "string \<Rightarrow> bool" where
  "test_http_scheme (h # t # t' # p # rest) =
     ((h = CHR ''h'' \<or> h = CHR ''H'') \<and> (t = CHR ''t'' \<or> t = CHR ''T'')
      \<and> (t' = CHR ''t'' \<or> t' = CHR ''T'') \<and> (p = CHR ''p'' \<or> p = CHR ''P'')
      \<and> (startsWith rest ''://''
          \<or> (case rest of
                [] \<Rightarrow> False
              | s # rest' \<Rightarrow> (s = CHR ''s'' \<or> s = CHR ''S'') \<and> startsWith rest' ''://'')))"
| "test_http_scheme s = False"

text \<open>
  One round of the prompt loop of \<open>main\<close>, for the line the user enters: the website
  URL the loop ends with, or \<open>None\<close> when it asks again.
\<close>

definition readWebsiteUrl :: "platform \<Rightarrow> string \<Rightarrow> string option" where
  "readWebsiteUrl P input =
     (let trimmed = trim input in
      if trimmed = [] then None
      else
        (let websiteUrl = (if \<not> test_http_scheme trimmed then ''https://'' @ trimmed else trimmed)
         in case new_URL P websiteUrl of
              None \<Rightarrow> None
            | Some u \<Rightarrow> Some websiteUrl))"

text \<open>
  What \<open>main\<close> does once \<open>crawlWebsite\<close> has returned: the lines it prints with
  \<open>console.log\<close> and the file it writes, if any, as name and content. The pictograph
  that starts a line is written as its UTF-8 bytes. An error of the file system, which
  \<open>main\<close> would catch and print, is not modelled.
\<close>

record report =
  printed :: "string list"
  written :: "(string \<times> string) option"

definition cross_mark :: string where
  "cross_mark = [CHR 0xE2, CHR 0x9D, CHR 0x8C]"

definition no_urls_message :: string where
  "no_urls_message = cross_mark @
     '' No URLs discovered. The website might be inaccessible or have no crawlable content.''"

definition error_line :: "string \<times> string \<Rightarrow> string" where
  "error_line e = ''  - '' @ fst e @ '': '' @ snd e"

text \<open>The preview of the first 10 pathnames.\<close>

definition preview_lines :: "string list \<Rightarrow> string list" where
  "preview_lines paths =
     (if length paths > 0
      then [[CHR 0x0A, CHR 0xF0, CHR 0x9F, CHR 0x93, CHR 0x8B] @ '' Preview of first 10 pathnames:'']
           @ map (\<lambda>(index, path). ''  '' @ show_nat (index + 1) @ ''. '' @ path)
               (enumerate 0 (take 10 paths))
           @ (if length paths > 10
              then [''  ... and '' @ show_nat (length paths - 10) @ '' more''] else [])
      else [])"

definition reportResult ::
  "platform \<Rightarrow> (string \<Rightarrow> string option) \<Rightarrow> url_obj \<Rightarrow> crawl_result \<Rightarrow> report" where
  "reportResult P decodeURIComponent baseUrl result =
     (if length (r_urls result) = 0
      then \<lparr> printed =
               [no_urls_message]
               @ (if length (r_errors result) > 0
                  then [[CHR 0x0A] @ ''Errors encountered:''] @ map error_line (r_errors result)
                  else []),
             written = None \<rparr>
      else
        (let paths = extractPathnames (new_URL P) decodeURIComponent (r_urls result) baseUrl
         in \<lparr> printed =
                 [[CHR 0x0A, CHR 0xE2, CHR 0x9C, CHR 0x85] @ '' Crawl Complete!'',
                  [CHR 0xF0, CHR 0x9F, CHR 0x93, CHR 0x8A] @ '' Pages processed: ''
                    @ show_nat (r_pagesProcessed result),
                  [CHR 0xF0, CHR 0x9F, CHR 0x94, CHR 0x97] @ '' URLs discovered: ''
                    @ show_nat (r_totalDiscovered result),
                  [CHR 0xF0, CHR 0x9F, CHR 0x9B, CHR 0xA4, CHR 0xEF, CHR 0xB8, CHR 0x8F]
                    @ ''  Unique pathnames: '' @ show_nat (length paths),
                  [CHR 0xF0, CHR 0x9F, CHR 0x92, CHR 0xBE] @ '' Saved pathnames to url.txt'']
                 @ (if length (r_errors result) > 0
                    then [[CHR 0xE2, CHR 0x9A, CHR 0xA0, CHR 0xEF, CHR 0xB8, CHR 0x8F]
                            @ ''  Errors encountered: '' @ show_nat (length (r_errors result))]
                    else [])
                 @ preview_lines paths,
               written = Some (''url.txt'', join [CHR 0x0A] paths) \<rparr>))"

text \<open>
  \<open>main\<close> from the call of \<open>crawlWebsite\<close> on, for the website URL and the limits read
  at the prompts. \<open>None\<close> when \<open>new URL(websiteUrl)\<close> throws, which the prompt loop
  has excluded.
\<close>

definition mainCrawl ::
  "platform \<Rightarrow> (string \<Rightarrow> string option) \<Rightarrow> string \<Rightarrow> int \<Rightarrow> int \<Rightarrow> report option" where
  "mainCrawl P decodeURIComponent websiteUrl maxPages maxDepth =
     (case crawlWebsite P websiteUrl maxPages maxDepth of
        None \<Rightarrow> None
      | Some result \<Rightarrow>
          (case new_URL P websiteUrl of
             None \<Rightarrow> None
           | Some baseUrl \<Rightarrow> Some (reportResult P decodeURIComponent baseUrl result)))"


section \<open>The link crawler: invariants and an example site\<close>

text \<open>
  The invariant of the frontier: the sets \<open>visited\<close> and \<open>toVisit\<close> are disjoint, and
  \<open>fetchPage\<close> has been called once for each member of \<open>visited\<close>, in the order they
  were added, and for nothing else.
\<close>

definition frontier_inv :: "crawl_state \<Rightarrow> bool" where
  "frontier_inv st =
     (distinct (visited st) \<and> distinct (toVisit st)
      \<and> set (toVisit st) \<inter> set (visited st) = {} \<and> fetched st = visited st)"

text \<open>
  A small site to run the crawler on. A page is written as the list of its links,
  separated by spaces, which the pattern for \<open>href\<close> attributes matches one by one. The
  request issued last completes first.
\<close>

definition ex_new_URL :: "string \<Rightarrow> url_obj option" where
  "ex_new_URL s =
     (if s = ''https://example.com''
        then Some \<lparr> url_href = ''https://example.com/'', url_protocol = ''https:'',
                    url_origin = ''https://example.com'', url_hostname = ''example.com'',
                    url_pathname = ''/'' \<rparr>
      else if startsWith s ''https://example.com/''
        then Some \<lparr> url_href = s, url_protocol = ''https:'',
                    url_origin = ''https://example.com'', url_hostname = ''example.com'',
                    url_pathname = drop 19 s \<rparr>
      else if startsWith s ''http://other.com/''
        then Some \<lparr> url_href = s, url_protocol = ''http:'',
                    url_origin = ''http://other.com'', url_hostname = ''other.com'',
                    url_pathname = drop 16 s \<rparr>
      else None)"

definition ex_page :: "string \<Rightarrow> response" where
  "ex_page links =
     \<lparr> resp_ok = True, resp_status = 200,
       resp_content_type = Some ''text/html; charset=utf-8'', resp_text = links \<rparr>"

definition ex_fetch :: "string \<Rightarrow> string + response" where
  "ex_fetch url =
     (if url = ''https://example.com'' then Inr (ex_page ''/about http://other.com/x /team/'')
      else if url = ''https://example.com/about'' then Inr (ex_page ''/team/ /contact /about'')
      else if url = ''https://example.com/team/''
        then Inr \<lparr> resp_ok = False, resp_status = 404, resp_content_type = None, resp_text = [] \<rparr>
      else Inl ''connection refused'')"

definition ex_platform :: platform where
  "ex_platform =
     \<lparr> new_URL = ex_new_URL,
       new_URL_base = (\<lambda>s b. ex_new_URL (b @ s)),
       matchAll = (\<lambda>p html. if p = HrefPattern
                               then filter (\<lambda>m. m \<noteq> []) (split_on CHR '' '' html) else []),
       fetch = (\<lambda>log url. ex_fetch url),
       scheduler = (\<lambda>urls. length urls - 1) \<rparr>"

definition ex_baseUrl :: url_obj where
  "ex_baseUrl =
     \<lparr> url_href = ''https://example.com/'', url_protocol = ''https:'',
       url_origin = ''https://example.com'', url_hostname = ''example.com'',
       url_pathname = ''/'' \<rparr>"

text \<open>The state of the crawl of the example site after its first batch.\<close>

definition ex_state :: crawl_state where
  "ex_state =
     \<lparr> visited = [''https://example.com''],
       toVisit = [''https://example.com/about'', ''https://example.com/team/''],
       discoveredUrls = [''https://example.com/about'', ''https://example.com/team/''],
       errors = [], pagesProcessed = 1, fetched = [''https://example.com''] \<rparr>"

text \<open>Every discovered URL is of the domain of the base URL, and valid.\<close>

definition same_host_inv :: "platform \<Rightarrow> url_obj \<Rightarrow> crawl_state \<Rightarrow> bool" where
  "same_host_inv P baseUrl st =
     list_all (\<lambda>u. isSameDomain P u baseUrl \<and> isValidUrl (new_URL P) u) (discoveredUrls st)"

text \<open>A page of the example site as the seed, and two results of a crawl.\<close>

definition ex_team_baseUrl :: url_obj where
  "ex_team_baseUrl =
     \<lparr> url_href = ''https://example.com/team/'', url_protocol = ''https:'',
       url_origin = ''https://example.com'', url_hostname = ''example.com'',
       url_pathname = ''/team/'' \<rparr>"

definition ex_result_no_urls :: crawl_result where
  "ex_result_no_urls =
     \<lparr> r_urls = [], r_errors = [(''https://example.com/team/'', ''HTTP 404'')],
       r_pagesProcessed = 1, r_totalDiscovered = 0 \<rparr>"

definition ex_result_one_url :: crawl_result where
  "ex_result_one_url =
     \<lparr> r_urls = [''https://example.com/about''], r_errors = [],
       r_pagesProcessed = 1, r_totalDiscovered = 1 \<rparr>"


section \<open>The sitemap harvester (extract-urls.mjs)\<close>

text \<open>
  The platform of the harvester, a parameter of the model:
  \<^item> \<open>fetchText log url\<close> is the outcome of \<open>fetchText(url)\<close> called after the calls for
    \<open>log\<close>: the text, or (\<open>Inl\<close>) the message of the error thrown by the request or by
    \<open>gunzip\<close>;
  \<^item> \<open>locMatches xml\<close> is the first capture group of every match of
    \<open>/<loc>([^<]+)<\/loc>/gi\<close> in \<open>xml\<close>, and \<open>sitemapLineMatches txt\<close> that of every
    match of \<open>/^\s*sitemap:\s*(.+)\s*$/gmi\<close> in \<open>txt\<close>;
  \<^item> \<open>isSitemapIndex xml\<close> is \<open>/<sitemapindex\b/i.test(xml)\<close>.
\<close>

record sitemap_platform =
  fetchText :: "string list \<Rightarrow> string \<Rightarrow> string + string"
  locMatches :: "string \<Rightarrow> string list"
  sitemapLineMatches :: "string \<Rightarrow> string list"
  isSitemapIndex :: "string \<Rightarrow> bool"

text \<open>\<open>extractLocs(xml)\<close>.\<close>

definition extractLocs :: "sitemap_platform \<Rightarrow> string \<Rightarrow> string list" where
  "extractLocs S xml = map (\<lambda>m. trim m) (locMatches S xml)"

text \<open>\<open>getRobotsSitemaps(baseUrl)\<close>, for the base URL as a string.\<close>

definition getRobotsSitemaps :: "sitemap_platform \<Rightarrow> string \<Rightarrow> string list" where
  "getRobotsSitemaps S baseUrl =
     (let robotsUrl = baseUrl @ ''/robots.txt'';
          txt = (case fetchText S [] robotsUrl of Inl message \<Rightarrow> [] | Inr t \<Rightarrow> t);
          lines = map (\<lambda>m. trim m) (sitemapLineMatches S txt);
          fallbackSitemaps =
            [baseUrl @ ''/sitemap.xml'', baseUrl @ ''/sitemap_index.xml'', baseUrl @ ''/sitemap-index.xml'']
      in if length lines > 0 then lines else fallbackSitemaps)"

text \<open>
  The variables of \<open>collectAllUrls\<close>; \<open>requests\<close> is not a variable of the program but
  the log of the calls of \<open>fetchText\<close>, in order.
\<close>

record collect_state =
  queue :: "string list"
  seenSitemaps :: "string list"
  urls_found :: "string list"
  processedCount :: nat
  requests :: "string list"

text \<open>The body of the \<open>while\<close> loop of \<open>collectAllUrls\<close>, for a queue that is not empty.\<close>

definition collectStep :: "sitemap_platform \<Rightarrow> collect_state \<Rightarrow> collect_state" where
  "collectStep S st =
     (case queue st of
        [] \<Rightarrow> st
      | sitemapUrl # rest \<Rightarrow>
          if sitemapUrl = [] \<or> sitemapUrl \<in> set (seenSitemaps st) then st\<lparr> queue := rest \<rparr>
          else
            (let st' = st\<lparr> queue := rest,
                            seenSitemaps := set_add sitemapUrl (seenSitemaps st),
                            processedCount := processedCount st + 1,
                            requests := requests st @ [sitemapUrl] \<rparr>
             in case fetchText S (requests st) sitemapUrl of
                  Inl message \<Rightarrow> st'
                | Inr xml \<Rightarrow>
                    if isSitemapIndex S xml
                    then st'\<lparr> queue := queue st' @ extractLocs S xml \<rparr>
                    else st'\<lparr> urls_found := foldl (\<lambda>s url. set_add url s) (urls_found st')
                                                (extractLocs S xml) \<rparr>))"

text \<open>The \<open>while\<close> loop: \<open>None\<close> when it does not end.\<close>

partial_function (option) collectLoop :: "sitemap_platform \<Rightarrow> collect_state \<Rightarrow> collect_state option" where
  "collectLoop S st = (if length (queue st) > 0 then collectLoop S (collectStep S st) else Some st)"

declare collectLoop.simps [code]

text \<open>\<open>collectAllUrls(baseUrl)\<close>: the state the loop ends in, and the array returned.\<close>

definition collectFinal :: "sitemap_platform \<Rightarrow> string \<Rightarrow> collect_state option" where
  "collectFinal S baseUrl =
     collectLoop S \<lparr> queue = getRobotsSitemaps S baseUrl, seenSitemaps = [], urls_found = [],
                     processedCount = 0, requests = [baseUrl @ ''/robots.txt''] \<rparr>"

definition collectAllUrls :: "sitemap_platform \<Rightarrow> string \<Rightarrow> string list option" where
  "collectAllUrls S baseUrl = map_option (\<lambda>st. sort (urls_found st)) (collectFinal S baseUrl)"

text \<open>
  The invariant of the walk: after the requests \<open>before\<close> made before the loop, the
  sitemaps fetched by the loop are the members of \<open>seenSitemaps\<close>, each fetched once.
\<close>

definition sitemap_inv :: "string list \<Rightarrow> collect_state \<Rightarrow> bool" where
  "sitemap_inv before st =
     (distinct (seenSitemaps st) \<and> requests st = before @ seenSitemaps st)"

text \<open>
  The sitemap URLs that the responses mention: the locations listed in any response
  that is a sitemap index.
\<close>

definition mentioned :: "sitemap_platform \<Rightarrow> string set" where
  "mentioned S =
     {child. \<exists>log url xml. fetchText S log url = Inr xml \<and> isSitemapIndex S xml
                \<and> child \<in> set (extractLocs S xml)}"

text \<open>The sitemap URLs that are queued or can still be queued, and are not seen.\<close>

definition unseen :: "string list \<Rightarrow> collect_state \<Rightarrow> string set" where
  "unseen universe st = (set universe \<union> set (queue st)) - set (seenSitemaps st)"

text \<open>
  An example: two sitemap indexes that name each other, and one sitemap. The pieces of
  a document are separated by spaces; an index starts with the piece \<open>index\<close>.
\<close>

definition ex_sitemap_fetch :: "string \<Rightarrow> string + string" where
  "ex_sitemap_fetch url =
     (if url = ''https://example.com/robots.txt'' then Inr ''https://example.com/a.xml''
      else if url = ''https://example.com/a.xml''
        then Inr ''index https://example.com/b.xml https://example.com/pages.xml''
      else if url = ''https://example.com/b.xml''
        then Inr ''index https://example.com/a.xml https://example.com/pages.xml''
      else if url = ''https://example.com/pages.xml''
        then Inr ''https://example.com/ https://example.com/about''
      else Inl ''HTTP 404'')"

definition ex_sitemap_platform :: sitemap_platform where
  "ex_sitemap_platform =
     \<lparr> fetchText = (\<lambda>log url. ex_sitemap_fetch url),
       locMatches = (\<lambda>xml. filter (\<lambda>m. m \<noteq> ''index'') (split_on CHR '' '' xml)),
       sitemapLineMatches = (\<lambda>txt. filter (\<lambda>m. m \<noteq> []) (split_on CHR '' '' txt)),
       isSitemapIndex = (\<lambda>xml. startsWith xml ''index'') \<rparr>"


section \<open>Properties of the set operations\<close>

lemma set_add_set: "set (set_add x xs) = insert x (set xs)"
  by (auto simp: set_add_def)

lemma set_add_distinct: "distinct xs \<Longrightarrow> distinct (set_add x xs)"
  by (simp add: set_add_def)

lemma foldl_set_add_set: "set (foldl (\<lambda>s x. set_add x s) acc xs) = set acc \<union> set xs"
  by (induction xs arbitrary: acc) (auto simp: set_add_set)

lemma foldl_set_add_distinct:
  "distinct acc \<Longrightarrow> distinct (foldl (\<lambda>s x. set_add x s) acc xs)"
  by (induction xs arbitrary: acc) (auto simp: set_add_distinct)

lemma foldl_set_add_fresh:
  "distinct (acc @ xs) \<Longrightarrow> foldl (\<lambda>s x. set_add x s) acc xs = acc @ xs"
  by (induction xs arbitrary: acc) (auto simp: set_add_def)

lemma new_Set_set: "set (new_Set xs) = set xs"
  by (simp add: new_Set_def foldl_set_add_set)

lemma new_Set_distinct: "distinct (new_Set xs)"
  by (simp add: new_Set_def foldl_set_add_distinct)

lemma new_Set_of_distinct: "distinct xs \<Longrightarrow> new_Set xs = xs"
  using foldl_set_add_fresh [of "[]" xs] by (simp add: new_Set_def)


section \<open>Properties of the crawl loop: the frontier\<close>

lemma finishTasks_preserves:
  assumes step: "\<And>url outcome st. (url, outcome) \<in> set pending \<Longrightarrow> I st
                   \<Longrightarrow> I (finishTask P maxDepth baseUrl url outcome st)"
    and "I st"
  shows "I (finishTasks P maxDepth baseUrl pending st)"
  using assms
proof (induction P maxDepth baseUrl pending st rule: finishTasks.induct)
  case (1 P maxDepth baseUrl pending st)
  show ?case
  proof (cases "pending = []")
    case True
    then show ?thesis using "1.prems"(2) by (simp add: finishTasks_Nil)
  next
    case False
    let ?i = "scheduler P (map fst pending) mod length pending"
    let ?rest = "take ?i pending @ drop (Suc ?i) pending"
    have i: "?i < length pending" using False by simp
    then have mem: "(fst (pending ! ?i), snd (pending ! ?i)) \<in> set pending"
      by simp
    have sub: "set ?rest \<subseteq> set pending"
      using set_take_subset [of ?i pending] set_drop_subset [of "Suc ?i" pending] by auto
    have "I (finishTasks P maxDepth baseUrl ?rest
              (finishTask P maxDepth baseUrl (fst (pending ! ?i)) (snd (pending ! ?i)) st))"
    proof (rule "1.IH" [OF False refl refl])
      show "I (finishTask P maxDepth baseUrl url outcome st')"
        if "(url, outcome) \<in> set ?rest" and "I st'" for url outcome st'
        using that sub "1.prems"(1) by blast
      show "I (finishTask P maxDepth baseUrl (fst (pending ! ?i)) (snd (pending ! ?i)) st)"
        using mem "1.prems" by blast
    qed
    then show ?thesis
      using False by (subst finishTasks.simps) (simp add: Let_def)
  qed
qed

lemma crawlLoop_preserves:
  assumes step: "\<And>st. I st \<Longrightarrow> toVisit st \<noteq> [] \<Longrightarrow> int (pagesProcessed st) < maxPages
                   \<Longrightarrow> I (processBatch P maxDepth baseUrl st)"
    and "I st"
  shows "I (crawlLoop P maxPages maxDepth baseUrl st)"
  using assms
proof (induction P maxPages maxDepth baseUrl st rule: crawlLoop.induct)
  case (1 P maxPages maxDepth baseUrl st)
  show ?case
  proof (cases "length (toVisit st) > 0 \<and> int (pagesProcessed st) < maxPages")
    case True
    then have "I (processBatch P maxDepth baseUrl st)"
      using "1.prems" by simp
    then have "I (crawlLoop P maxPages maxDepth baseUrl (processBatch P maxDepth baseUrl st))"
      using "1.IH" [OF True] "1.prems"(1) by blast
    then show ?thesis
      using True by (simp add: crawlLoop_continue)
  next
    case False
    then show ?thesis
      using "1.prems"(2) by (simp add: crawlLoop_stop)
  qed
qed

lemma crawlLoop_exit:
  "\<not> (length (toVisit (crawlLoop P maxPages maxDepth baseUrl st)) > 0
      \<and> int (pagesProcessed (crawlLoop P maxPages maxDepth baseUrl st)) < maxPages)"
proof (induction P maxPages maxDepth baseUrl st rule: crawlLoop.induct)
  case (1 P maxPages maxDepth baseUrl st)
  show ?case
  proof (cases "length (toVisit st) > 0 \<and> int (pagesProcessed st) < maxPages")
    case True
    then show ?thesis
      using "1.IH" [OF True] by (simp add: crawlLoop_continue)
  next
    case False
    then show ?thesis
      by (simp add: crawlLoop_stop)
  qed
qed

lemma foldl_set_delete_set:
  "set (foldl (\<lambda>s url. set_delete url s) xs batch) = set xs - set batch"
  by (induction batch arbitrary: xs) (auto simp: set_delete_def)

lemma foldl_set_delete_distinct:
  "distinct xs \<Longrightarrow> distinct (foldl (\<lambda>s url. set_delete url s) xs batch)"
  by (induction batch arbitrary: xs) (auto simp: set_delete_def distinct_removeAll)

lemma frontier_inv_dequeue:
  "frontier_inv st
     \<Longrightarrow> frontier_inv (st\<lparr> toVisit := foldl (\<lambda>s url. set_delete url s) (toVisit st) batch \<rparr>)"
  by (auto simp: frontier_inv_def foldl_set_delete_set foldl_set_delete_distinct)

lemma frontier_inv_startTasks:
  "frontier_inv st \<Longrightarrow> set batch \<inter> set (toVisit st) = {}
     \<Longrightarrow> frontier_inv (fst (startTasks P batch st pending))"
proof (induction batch arbitrary: st pending)
  case Nil
  then show ?case by simp
next
  case (Cons url batch)
  show ?case
  proof (cases "url \<in> set (visited st)")
    case True
    then show ?thesis using Cons by simp
  next
    case False
    let ?st = "st\<lparr> visited := set_add url (visited st),
                     pagesProcessed := pagesProcessed st + 1,
                     fetched := fetched st @ [url] \<rparr>"
    have "frontier_inv ?st"
      using Cons.prems False by (auto simp: frontier_inv_def set_add_def)
    moreover have "set batch \<inter> set (toVisit ?st) = {}"
      using Cons.prems by auto
    ultimately have "frontier_inv (fst (startTasks P batch ?st
        (pending @ [(url, fetchPage (fetch P (fetched st)) url)])))"
      by (rule Cons.IH)
    then show ?thesis using False by simp
  qed
qed

lemma frontier_inv_addFound:
  "frontier_inv st \<Longrightarrow> frontier_inv (addFound maxDepth url st foundUrl)"
  by (auto simp: frontier_inv_def addFound_def Let_def set_add_def)

lemma frontier_inv_finishTask:
  assumes "frontier_inv st"
  shows "frontier_inv (finishTask P maxDepth baseUrl url outcome st)"
proof (cases outcome)
  case (Inl message)
  then show ?thesis using assms by (simp add: finishTask_def frontier_inv_def)
next
  case (Inr html)
  have "frontier_inv (foldl (addFound maxDepth url) st found)" for found
    using assms by (induction found arbitrary: st) (simp_all add: frontier_inv_addFound)
  then show ?thesis using Inr by (simp add: finishTask_def)
qed

lemma frontier_inv_processBatch:
  assumes "frontier_inv st"
  shows "frontier_inv (processBatch P maxDepth baseUrl st)"
proof -
  let ?batch = "take 10 (toVisit st)"
  let ?st' = "st\<lparr> toVisit := foldl (\<lambda>s url. set_delete url s) (toVisit st) ?batch \<rparr>"
  have "frontier_inv ?st'"
    using assms by (rule frontier_inv_dequeue)
  moreover have "set ?batch \<inter> set (toVisit ?st') = {}"
    by (auto simp: foldl_set_delete_set)
  ultimately have "frontier_inv (fst (startTasks P ?batch ?st' []))"
    by (rule frontier_inv_startTasks)
  then have "frontier_inv (finishTasks P maxDepth baseUrl (snd (startTasks P ?batch ?st' []))
                            (fst (startTasks P ?batch ?st' [])))"
    by (rule finishTasks_preserves [rotated]) (rule frontier_inv_finishTask)
  then show ?thesis
    by (simp add: processBatch_def Let_def)
qed

lemma frontier_inv_crawlLoop:
  "frontier_inv st \<Longrightarrow> frontier_inv (crawlLoop P maxPages maxDepth baseUrl st)"
  by (rule crawlLoop_preserves [rotated]) (simp_all add: frontier_inv_processBatch)

lemma frontier_inv_initial: "frontier_inv (initial_state startUrl)"
  by (simp add: frontier_inv_def initial_state_def)

lemma frontier_inv_crawlFinal:
  "frontier_inv (crawlFinal P startUrl maxPages maxDepth baseUrl)"
  unfolding crawlFinal_def by (rule frontier_inv_crawlLoop) (rule frontier_inv_initial)

text \<open>The visited set only grows.\<close>

lemma startTasks_visited_grows:
  "\<exists>more. visited (fst (startTasks P batch st pending)) = visited st @ more"
proof (induction batch arbitrary: st pending)
  case Nil
  show ?case by simp
next
  case (Cons url batch)
  show ?case
  proof (cases "url \<in> set (visited st)")
    case True
    then show ?thesis using Cons.IH [of st pending] by simp
  next
    case False
    then show ?thesis
      using Cons.IH [of "st\<lparr> visited := set_add url (visited st),
                              pagesProcessed := pagesProcessed st + 1,
                              fetched := fetched st @ [url] \<rparr>"
                         "pending @ [(url, fetchPage (fetch P (fetched st)) url)]"]
      by (auto simp: set_add_def)
  qed
qed

lemma addFound_visited: "visited (addFound maxDepth url st foundUrl) = visited st"
  by (simp add: addFound_def Let_def)

lemma finishTask_visited: "visited (finishTask P maxDepth baseUrl url outcome st) = visited st"
proof (cases outcome)
  case (Inl message)
  then show ?thesis by (simp add: finishTask_def)
next
  case (Inr html)
  have "visited (foldl (addFound maxDepth url) st found) = visited st" for found
    by (induction found arbitrary: st) (simp_all add: addFound_visited)
  then show ?thesis using Inr by (simp add: finishTask_def)
qed

lemma finishTasks_visited:
  "visited (finishTasks P maxDepth baseUrl pending st) = visited st"
  by (rule finishTasks_preserves [where I = "\<lambda>s. visited s = visited st"])
     (simp_all add: finishTask_visited)

lemma processBatch_visited_grows:
  "\<exists>more. visited (processBatch P maxDepth baseUrl st) = visited st @ more"
  using startTasks_visited_grows
    [of P "take 10 (toVisit st)"
        "st\<lparr> toVisit := foldl (\<lambda>s url. set_delete url s) (toVisit st) (take 10 (toVisit st)) \<rparr>" "[]"]
  by (simp add: processBatch_def Let_def finishTasks_visited)

lemma crawlLoop_visited_grows:
  "\<exists>more. visited (crawlLoop P maxPages maxDepth baseUrl st) = visited st @ more"
proof (rule crawlLoop_preserves [where I = "\<lambda>s. \<exists>more. visited s = visited st @ more"])
  fix s :: crawl_state
  assume "\<exists>more. visited s = visited st @ more"
  then show "\<exists>more. visited (processBatch P maxDepth baseUrl s) = visited st @ more"
    using processBatch_visited_grows [of P maxDepth baseUrl s] by auto
qed simp

lemma addFound_visited_not_queued:
  "foundUrl \<in> set (visited st) \<Longrightarrow> toVisit (addFound maxDepth url st foundUrl) = toVisit st"
  by (simp add: addFound_def Let_def)


section \<open>Properties of the crawl loop: discovered URLs\<close>

lemma addMatch_same_host:
  "list_all (\<lambda>u. isSameDomain P u baseUrl \<and> isValidUrl (new_URL P) u) urls
     \<Longrightarrow> list_all (\<lambda>u. isSameDomain P u baseUrl \<and> isValidUrl (new_URL P) u)
           (addMatch P baseUrl urls m)"
  by (auto simp: addMatch_def set_add_def split: option.splits)

lemma foldl_addMatch_same_host:
  "list_all (\<lambda>u. isSameDomain P u baseUrl \<and> isValidUrl (new_URL P) u) urls
     \<Longrightarrow> list_all (\<lambda>u. isSameDomain P u baseUrl \<and> isValidUrl (new_URL P) u)
           (foldl (addMatch P baseUrl) urls ms)"
  by (induction ms arbitrary: urls) (simp_all add: addMatch_same_host)

lemma extractUrls_same_host:
  "list_all (\<lambda>u. isSameDomain P u baseUrl \<and> isValidUrl (new_URL P) u)
     (extractUrls P html baseUrl)"
  by (simp add: extractUrls_def foldl_addMatch_same_host)

lemma addFound_discovered:
  "discoveredUrls (addFound maxDepth url st foundUrl) = set_add foundUrl (discoveredUrls st)"
  by (simp add: addFound_def Let_def)

lemma foldl_addFound_same_host:
  "same_host_inv P baseUrl st
     \<Longrightarrow> list_all (\<lambda>u. isSameDomain P u baseUrl \<and> isValidUrl (new_URL P) u) found
     \<Longrightarrow> same_host_inv P baseUrl (foldl (addFound maxDepth url) st found)"
proof (induction found arbitrary: st)
  case Nil
  then show ?case by simp
next
  case (Cons f found)
  have "same_host_inv P baseUrl (addFound maxDepth url st f)"
    using Cons.prems by (auto simp: same_host_inv_def addFound_discovered set_add_def)
  then show ?case using Cons by simp
qed

lemma finishTask_same_host:
  "same_host_inv P baseUrl st
     \<Longrightarrow> same_host_inv P baseUrl (finishTask P maxDepth baseUrl url outcome st)"
  by (cases outcome)
     (simp_all add: finishTask_def foldl_addFound_same_host extractUrls_same_host,
      simp add: same_host_inv_def)

lemma startTasks_discovered:
  "discoveredUrls (fst (startTasks P batch st pending)) = discoveredUrls st"
  by (induction batch arbitrary: st pending) simp_all

lemma processBatch_same_host:
  assumes "same_host_inv P baseUrl st"
  shows "same_host_inv P baseUrl (processBatch P maxDepth baseUrl st)"
proof -
  let ?batch = "take 10 (toVisit st)"
  let ?st' = "st\<lparr> toVisit := foldl (\<lambda>s url. set_delete url s) (toVisit st) ?batch \<rparr>"
  have "same_host_inv P baseUrl (fst (startTasks P ?batch ?st' []))"
    using assms by (simp add: same_host_inv_def startTasks_discovered)
  then have "same_host_inv P baseUrl
               (finishTasks P maxDepth baseUrl (snd (startTasks P ?batch ?st' []))
                  (fst (startTasks P ?batch ?st' [])))"
    by (rule finishTasks_preserves [rotated]) (rule finishTask_same_host)
  then show ?thesis
    by (simp add: processBatch_def Let_def)
qed

lemma crawlFinal_same_host:
  "same_host_inv P baseUrl (crawlFinal P startUrl maxPages maxDepth baseUrl)"
  unfolding crawlFinal_def
  by (rule crawlLoop_preserves [rotated])
     (simp_all add: processBatch_same_host, simp add: same_host_inv_def initial_state_def)

lemma extractPathnames_origin:
  assumes "p \<in> set (extractPathnames parseURL decodeURIComponent urls baseUrl)"
  shows "\<exists>u \<in> set urls. \<exists>uo. parseURL u = Some uo \<and> url_hostname uo = url_hostname baseUrl
           \<and> p = cleanPathname decodeURIComponent
                    (if url_pathname uo = [] then ''/'' else url_pathname uo)"
proof -
  from assms obtain u where u: "u \<in> set urls"
    and keep: "(case parseURL u of Some uo \<Rightarrow> url_hostname uo = url_hostname baseUrl
                | None \<Rightarrow> False)"
    and p: "p = (case parseURL u of
                   Some uo \<Rightarrow> cleanPathname decodeURIComponent
                                (if url_pathname uo = [] then ''/'' else url_pathname uo)
                 | None \<Rightarrow> ''/'')"
    by (auto simp: extractPathnames_def Let_def new_Set_set)
  from keep obtain uo where "parseURL u = Some uo" "url_hostname uo = url_hostname baseUrl"
    by (cases "parseURL u") auto
  then show ?thesis using u p by auto
qed


section \<open>Properties of the crawl loop: depth\<close>

lemma startsWith_scheme_slashes:
  assumes "startsWith rest ''://''"
  shows "2 \<le> count_list rest CHR ''/''"
proof -
  have "take (length ''://'') rest = ''://''"
    using assms by (simp only: startsWith_def)
  then have "rest = ''://'' @ drop (length ''://'') rest"
    by (metis append_take_drop_id)
  then obtain tail where "rest = ''://'' @ tail"
    by blast
  then show ?thesis by simp
qed

lemma test_http_scheme_slashes:
  assumes "test_http_scheme url"
  shows "2 \<le> count_list url CHR ''/''"
proof -
  from assms obtain h t t' p rest where url: "url = h # t # t' # p # rest"
    by (cases url rule: test_http_scheme.cases) auto
  have "startsWith rest ''://''
        \<or> (\<exists>s rest'. rest = s # rest' \<and> startsWith rest' ''://'')"
    using assms url by (auto split: list.splits)
  then have "2 \<le> count_list rest CHR ''/''"
  proof
    assume "startsWith rest ''://''"
    then show ?thesis by (rule startsWith_scheme_slashes)
  next
    assume "\<exists>s rest'. rest = s # rest' \<and> startsWith rest' ''://''"
    then obtain s rest' where r: "rest = s # rest'" and "startsWith rest' ''://''" by blast
    then have "2 \<le> count_list rest' CHR ''/''" using startsWith_scheme_slashes by blast
    then show ?thesis using r by simp
  qed
  then show ?thesis using url by simp
qed

lemma test_http_scheme_depth: "test_http_scheme url \<Longrightarrow> 0 \<le> urlDepth url"
  using test_http_scheme_slashes [of url] by (simp add: urlDepth_def)

lemma readWebsiteUrl_scheme:
  assumes "readWebsiteUrl P input = Some startUrl"
  shows "test_http_scheme startUrl"
proof -
  let ?t = "trim input"
  have "startUrl = (if \<not> test_http_scheme ?t then ''https://'' @ ?t else ?t)"
    using assms by (auto simp: readWebsiteUrl_def Let_def split: if_splits option.splits)
  moreover have "test_http_scheme (''https://'' @ ?t)"
    by (simp add: startsWith_def)
  ultimately show ?thesis by (cases "test_http_scheme ?t") simp_all
qed

lemma addFound_not_queued:
  "maxDepth \<le> urlDepth url \<Longrightarrow> toVisit (addFound maxDepth url st foundUrl) = toVisit st"
  by (simp add: addFound_def Let_def)

lemma addFound_fetched: "fetched (addFound maxDepth url st foundUrl) = fetched st"
  by (simp add: addFound_def Let_def)

lemma finishTask_not_queued:
  assumes "maxDepth \<le> urlDepth url"
  shows "toVisit (finishTask P maxDepth baseUrl url outcome st) = toVisit st"
proof (cases outcome)
  case (Inl message)
  then show ?thesis by (simp add: finishTask_def)
next
  case (Inr html)
  have "toVisit (foldl (addFound maxDepth url) st found) = toVisit st" for found
    using assms by (induction found arbitrary: st) (simp_all add: addFound_not_queued)
  then show ?thesis using Inr by (simp add: finishTask_def)
qed

lemma finishTask_fetched: "fetched (finishTask P maxDepth baseUrl url outcome st) = fetched st"
proof (cases outcome)
  case (Inl message)
  then show ?thesis by (simp add: finishTask_def)
next
  case (Inr html)
  have "fetched (foldl (addFound maxDepth url) st found) = fetched st" for found
    by (induction found arbitrary: st) (simp_all add: addFound_fetched)
  then show ?thesis using Inr by (simp add: finishTask_def)
qed

lemma finishTasks_single:
  "finishTasks P maxDepth baseUrl [(url, outcome)] st = finishTask P maxDepth baseUrl url outcome st"
  by (subst finishTasks.simps) (simp add: Let_def finishTasks_Nil)

lemma processBatch_initial:
  "processBatch P maxDepth baseUrl (initial_state startUrl)
     = finishTask P maxDepth baseUrl startUrl (fetchPage (fetch P []) startUrl)
         \<lparr> visited = [startUrl], toVisit = [], discoveredUrls = [], errors = [],
           pagesProcessed = 1, fetched = [startUrl] \<rparr>"
  by (simp add: processBatch_def initial_state_def Let_def set_delete_def set_add_def
      finishTasks_single)

lemma crawlFinal_maxDepth_zero:
  assumes "0 \<le> urlDepth startUrl"
  shows "fetched (crawlFinal P startUrl maxPages 0 baseUrl) = (if 0 < maxPages then [startUrl] else [])"
    and "toVisit (crawlFinal P startUrl maxPages 0 baseUrl) = (if 0 < maxPages then [] else [startUrl])"
    and "pagesProcessed (crawlFinal P startUrl maxPages 0 baseUrl) = (if 0 < maxPages then 1 else 0)"
proof -
  let ?first = "processBatch P 0 baseUrl (initial_state startUrl)"
  have tv: "toVisit ?first = []"
    using assms by (simp add: processBatch_initial finishTask_not_queued)
  have fe: "fetched ?first = [startUrl]"
    by (simp add: processBatch_initial finishTask_fetched)
  have pp: "pagesProcessed ?first = 1"
    by (simp add: processBatch_initial finishTask_pagesProcessed)
  have run: "crawlFinal P startUrl maxPages 0 baseUrl = ?first" if "0 < maxPages"
  proof -
    have "crawlLoop P maxPages 0 baseUrl (initial_state startUrl) = crawlLoop P maxPages 0 baseUrl ?first"
      using that by (intro crawlLoop_continue) (simp_all add: initial_state_def)
    also have "\<dots> = ?first"
      using tv by (intro crawlLoop_stop) simp
    finally show ?thesis by (simp add: crawlFinal_def)
  qed
  have stop: "crawlFinal P startUrl maxPages 0 baseUrl = initial_state startUrl" if "\<not> 0 < maxPages"
    unfolding crawlFinal_def using that by (intro crawlLoop_stop) (simp add: initial_state_def)
  show "fetched (crawlFinal P startUrl maxPages 0 baseUrl) = (if 0 < maxPages then [startUrl] else [])"
    using run stop fe by (simp add: initial_state_def)
  show "toVisit (crawlFinal P startUrl maxPages 0 baseUrl) = (if 0 < maxPages then [] else [startUrl])"
    using run stop tv by (simp add: initial_state_def)
  show "pagesProcessed (crawlFinal P startUrl maxPages 0 baseUrl) = (if 0 < maxPages then 1 else 0)"
    using run stop pp by (simp add: initial_state_def)
qed


section \<open>Properties of the crawl loop: the page budget\<close>

lemma startTasks_fresh:
  "distinct batch \<Longrightarrow> set batch \<inter> set (visited st) = {}
     \<Longrightarrow> visited (fst (startTasks P batch st pending)) = visited st @ batch
         \<and> pagesProcessed (fst (startTasks P batch st pending)) = pagesProcessed st + length batch"
proof (induction batch arbitrary: st pending)
  case Nil
  show ?case by simp
next
  case (Cons url batch)
  let ?st = "st\<lparr> visited := set_add url (visited st),
                   pagesProcessed := pagesProcessed st + 1,
                   fetched := fetched st @ [url] \<rparr>"
  have new: "url \<notin> set (visited st)" using Cons.prems by simp
  have "distinct batch" and "set batch \<inter> set (visited ?st) = {}"
    using Cons.prems new by (auto simp: set_add_def)
  then have "visited (fst (startTasks P batch ?st (pending @ [(url, fetchPage (fetch P (fetched st)) url)])))
               = visited ?st @ batch
             \<and> pagesProcessed (fst (startTasks P batch ?st
                   (pending @ [(url, fetchPage (fetch P (fetched st)) url)])))
               = pagesProcessed ?st + length batch"
    by (rule Cons.IH)
  then show ?case using new by (simp add: set_add_def)
qed

lemma processBatch_whole_batch:
  assumes "frontier_inv st"
  shows "visited (processBatch P maxDepth baseUrl st) = visited st @ take 10 (toVisit st)"
    and "pagesProcessed (processBatch P maxDepth baseUrl st)
           = pagesProcessed st + length (take 10 (toVisit st))"
proof -
  let ?batch = "take 10 (toVisit st)"
  let ?st' = "st\<lparr> toVisit := foldl (\<lambda>s url. set_delete url s) (toVisit st) ?batch \<rparr>"
  have d: "distinct ?batch"
    using assms by (simp add: frontier_inv_def)
  have "set ?batch \<subseteq> set (toVisit st)"
    by (rule set_take_subset)
  then have "set ?batch \<inter> set (visited ?st') = {}"
    using assms by (auto simp: frontier_inv_def)
  then have "visited (fst (startTasks P ?batch ?st' [])) = visited ?st' @ ?batch
        \<and> pagesProcessed (fst (startTasks P ?batch ?st' [])) = pagesProcessed ?st' + length ?batch"
    using d by (intro startTasks_fresh)
  then show "visited (processBatch P maxDepth baseUrl st) = visited st @ ?batch"
    and "pagesProcessed (processBatch P maxDepth baseUrl st) = pagesProcessed st + length ?batch"
    by (simp_all add: processBatch_def Let_def finishTasks_visited finishTasks_pagesProcessed)
qed

lemma startTasks_pending_length:
  "startTasks P batch st pending = (st', pending')
     \<Longrightarrow> length pending' \<le> length pending + length batch"
proof (induction batch arbitrary: st pending)
  case Nil
  then show ?case by simp
next
  case (Cons url batch)
  show ?case
  proof (cases "url \<in> set (visited st)")
    case True
    then show ?thesis using Cons.IH [of st pending] Cons.prems by simp
  next
    case False
    then show ?thesis
      using Cons.IH [of "st\<lparr> visited := set_add url (visited st),
                             pagesProcessed := pagesProcessed st + 1,
                             fetched := fetched st @ [url] \<rparr>"
                        "pending @ [(url, fetchPage (fetch P (fetched st)) url)]"] Cons.prems
      by simp
  qed
qed

lemma processBatch_at_most_ten:
  "pagesProcessed (processBatch P maxDepth baseUrl st) \<le> pagesProcessed st + 10"
proof -
  let ?batch = "take 10 (toVisit st)"
  let ?st' = "st\<lparr> toVisit := foldl (\<lambda>s url. set_delete url s) (toVisit st) ?batch \<rparr>"
  obtain st2 pending where started: "startTasks P ?batch ?st' [] = (st2, pending)"
    by (cases "startTasks P ?batch ?st' []") auto
  have "pagesProcessed st2 = pagesProcessed st + length pending"
    using startTasks_counts [OF started] by simp
  moreover have "length pending \<le> length ?batch"
    using startTasks_pending_length [OF started] by simp
  moreover have "length ?batch \<le> 10"
    by simp
  ultimately show ?thesis
    by (simp add: processBatch_def Let_def started finishTasks_pagesProcessed)
qed

lemma crawlFinal_pages_bound:
  assumes "- 9 \<le> maxPages"
  shows "int (pagesProcessed (crawlFinal P startUrl maxPages maxDepth baseUrl)) \<le> maxPages + 9"
  unfolding crawlFinal_def
proof (rule crawlLoop_preserves [where I = "\<lambda>s. int (pagesProcessed s) \<le> maxPages + 9"])
  fix st :: crawl_state
  assume "int (pagesProcessed st) < maxPages"
  then show "int (pagesProcessed (processBatch P maxDepth baseUrl st)) \<le> maxPages + 9"
    using processBatch_at_most_ten [of P maxDepth baseUrl st] by simp
next
  show "int (pagesProcessed (initial_state startUrl)) \<le> maxPages + 9"
    using assms by (simp add: initial_state_def)
qed

lemma crawlFinal_no_budget:
  assumes "maxPages \<le> 0"
  shows "crawlFinal P startUrl maxPages maxDepth baseUrl = initial_state startUrl"
  unfolding crawlFinal_def using assms by (intro crawlLoop_stop) simp


section \<open>Properties of the report\<close>

lemma reportResult_no_urls:
  assumes "r_urls result = []"
  shows "written (reportResult P decodeURIComponent baseUrl result) = None"
    and "printed (reportResult P decodeURIComponent baseUrl result)
           = no_urls_message #
             (if r_errors result = [] then []
              else ([CHR 0x0A] @ ''Errors encountered:'') # map error_line (r_errors result))"
  using assms by (simp_all add: reportResult_def)

lemma reportResult_some_urls:
  assumes "r_urls result \<noteq> []"
  shows "written (reportResult P decodeURIComponent baseUrl result)
           = Some (''url.txt'', join [CHR 0x0A]
               (extractPathnames (new_URL P) decodeURIComponent (r_urls result) baseUrl))"
  using assms by (simp add: reportResult_def Let_def)

lemma sort_Nil_iff: "sort xs = [] \<longleftrightarrow> xs = []"
  using length_sort [of "\<lambda>x. x" xs] by (metis length_0_conv)


section \<open>Properties of the sitemap walk\<close>

lemma collectLoop_continue:
  "queue st \<noteq> [] \<Longrightarrow> collectLoop S st = collectLoop S (collectStep S st)"
  by (subst collectLoop.simps) simp

lemma collectLoop_stop: "queue st = [] \<Longrightarrow> collectLoop S st = Some st"
  by (subst collectLoop.simps) simp

lemma collectStep_inv:
  assumes "sitemap_inv n st"
  shows "sitemap_inv n (collectStep S st)"
proof (cases "queue st")
  case Nil
  then show ?thesis using assms by (simp add: collectStep_def)
next
  case (Cons sitemapUrl rest)
  show ?thesis
  proof (cases "sitemapUrl = [] \<or> sitemapUrl \<in> set (seenSitemaps st)")
    case True
    then show ?thesis using assms Cons by (auto simp: collectStep_def sitemap_inv_def)
  next
    case False
    then show ?thesis
      using assms Cons
      by (auto simp: collectStep_def sitemap_inv_def Let_def set_add_def split: sum.splits)
  qed
qed

lemma collectLoop_inv_imp:
  assumes "collectLoop S st = Some final"
  shows "sitemap_inv n st \<longrightarrow> sitemap_inv n final \<and> queue final = []"
proof (rule collectLoop.raw_induct
    [where P = "\<lambda>S st final. sitemap_inv n st \<longrightarrow> sitemap_inv n final \<and> queue final = []"])
  show "collectLoop S st = Some final"
    by (rule assms)
next
  fix loop :: "sitemap_platform \<Rightarrow> collect_state \<Rightarrow> collect_state option"
    and S :: sitemap_platform and st final :: collect_state
  assume IH: "\<And>S st final. loop S st = Some final
                \<Longrightarrow> sitemap_inv n st \<longrightarrow> sitemap_inv n final \<and> queue final = []"
    and eq: "(if length (queue st) > 0 then loop S (collectStep S st) else Some st) = Some final"
  show "sitemap_inv n st \<longrightarrow> sitemap_inv n final \<and> queue final = []"
  proof (cases "queue st = []")
    case True
    then show ?thesis using eq by auto
  next
    case False
    then have "loop S (collectStep S st) = Some final"
      using eq by simp
    then have "sitemap_inv n (collectStep S st) \<longrightarrow> sitemap_inv n final \<and> queue final = []"
      by (rule IH)
    then show ?thesis
      using collectStep_inv [of n st S] by blast
  qed
qed

lemma collectLoop_inv:
  "collectLoop S st = Some final \<Longrightarrow> sitemap_inv n st \<Longrightarrow> sitemap_inv n final \<and> queue final = []"
  using collectLoop_inv_imp by blast

lemma collectStep_decreases:
  assumes mentioned: "\<And>log url xml. fetchText S log url = Inr xml \<Longrightarrow> isSitemapIndex S xml
                        \<Longrightarrow> set (extractLocs S xml) \<subseteq> set universe"
    and ne: "queue st \<noteq> []"
  shows "(collectStep S st, st)
           \<in> inv_image (less_than <*lex*> less_than)
               (\<lambda>s. (card (unseen universe s), length (queue s)))"
proof -
  obtain sitemapUrl rest where q: "queue st = sitemapUrl # rest"
    using ne by (cases "queue st") auto
  have fin: "finite (unseen universe s)" for s
    by (simp add: unseen_def)
  show ?thesis
  proof (cases "sitemapUrl = [] \<or> sitemapUrl \<in> set (seenSitemaps st)")
    case True
    then have step: "collectStep S st = st\<lparr> queue := rest \<rparr>"
      using q by (auto simp: collectStep_def)
    have "unseen universe (st\<lparr> queue := rest \<rparr>) \<subseteq> unseen universe st"
      using q by (auto simp: unseen_def)
    then have "card (unseen universe (st\<lparr> queue := rest \<rparr>)) \<le> card (unseen universe st)"
      using fin by (intro card_mono)
    then show ?thesis
      using step q by (auto simp: le_less)
  next
    case False
    have mem: "sitemapUrl \<in> unseen universe st"
      using False q by (simp add: unseen_def)
    have "unseen universe (collectStep S st) \<subseteq> unseen universe st - {sitemapUrl}"
    proof (cases "fetchText S (requests st) sitemapUrl")
      case (Inl message)
      then show ?thesis
        using False q by (auto simp: collectStep_def unseen_def Let_def set_add_def)
    next
      case (Inr xml)
      show ?thesis
      proof (cases "isSitemapIndex S xml")
        case True
        then have "set (extractLocs S xml) \<subseteq> set universe"
          using mentioned Inr by blast
        then show ?thesis
          using False q Inr True
          by (auto simp: collectStep_def unseen_def Let_def set_add_def)
      next
        case no: False
        then show ?thesis
          using False q Inr
          by (auto simp: collectStep_def unseen_def Let_def set_add_def)
      qed
    qed
    then have "card (unseen universe (collectStep S st)) \<le> card (unseen universe st - {sitemapUrl})"
      using fin by (intro card_mono) auto
    also have "\<dots> < card (unseen universe st)"
      using mem fin by (intro card_Diff1_less)
    finally show ?thesis by simp
  qed
qed

lemma collectLoop_terminates:
  assumes mentioned: "\<And>log url xml. fetchText S log url = Inr xml \<Longrightarrow> isSitemapIndex S xml
                        \<Longrightarrow> set (extractLocs S xml) \<subseteq> set universe"
  shows "\<exists>final. collectLoop S st = Some final"
proof -
  let ?r = "inv_image (less_than <*lex*> less_than)
              (\<lambda>s. (card (unseen universe s), length (queue s)))"
  have wf: "wf ?r"
    by (intro wf_inv_image wf_lex_prod wf_less_than)
  show ?thesis
  proof (induction st rule: wf_induct_rule [OF wf])
    case (1 st)
    show ?case
    proof (cases "queue st = []")
      case True
      then show ?thesis by (simp add: collectLoop_stop)
    next
      case False
      have "(collectStep S st, st) \<in> ?r"
        using mentioned False by (rule collectStep_decreases)
      then have "\<exists>final. collectLoop S (collectStep S st) = Some final"
        by (rule "1.IH")
      then show ?thesis
        using False by (simp add: collectLoop_continue)
    qed
  qed
qed

lemma ex_sitemap_mentioned:
  "mentioned ex_sitemap_platform
     \<subseteq> set [''https://example.com/a.xml'', ''https://example.com/b.xml'',
             ''https://example.com/pages.xml'']"
proof
  fix child
  assume "child \<in> mentioned ex_sitemap_platform"
  then obtain url xml where f: "ex_sitemap_fetch url = Inr xml"
    and i: "startsWith xml ''index''"
    and c: "child \<in> set (extractLocs ex_sitemap_platform xml)"
    by (auto simp: mentioned_def ex_sitemap_platform_def)
  have "xml = ''https://example.com/a.xml''
        \<or> xml = ''index https://example.com/b.xml https://example.com/pages.xml''
        \<or> xml = ''index https://example.com/a.xml https://example.com/pages.xml''
        \<or> xml = ''https://example.com/ https://example.com/about''"
    using f by (simp add: ex_sitemap_fetch_def split: if_splits)
  then have "xml = ''index https://example.com/b.xml https://example.com/pages.xml''
        \<or> xml = ''index https://example.com/a.xml https://example.com/pages.xml''"
  proof (elim disjE)
    assume "xml = ''https://example.com/a.xml''"
    then show ?thesis using i by (simp add: startsWith_def)
  next
    assume "xml = ''index https://example.com/b.xml https://example.com/pages.xml''"
    then show ?thesis by (rule disjI1)
  next
    assume "xml = ''index https://example.com/a.xml https://example.com/pages.xml''"
    then show ?thesis by (rule disjI2)
  next
    assume "xml = ''https://example.com/ https://example.com/about''"
    then show ?thesis using i by (simp add: startsWith_def)
  qed
  moreover have "extractLocs ex_sitemap_platform
                   ''index https://example.com/b.xml https://example.com/pages.xml''
                 = [''https://example.com/b.xml'', ''https://example.com/pages.xml'']"
    by code_simp
  moreover have "extractLocs ex_sitemap_platform
                   ''index https://example.com/a.xml https://example.com/pages.xml''
                 = [''https://example.com/a.xml'', ''https://example.com/pages.xml'']"
    by code_simp
  ultimately have "set (extractLocs ex_sitemap_platform xml)
                     \<subseteq> set [''https://example.com/a.xml'', ''https://example.com/b.xml'',
                             ''https://example.com/pages.xml'']"
    by (elim disjE) simp_all
  then show "child \<in> set [''https://example.com/a.xml'', ''https://example.com/b.xml'',
                        ''https://example.com/pages.xml'']"
    using c by (rule subsetD)
qed
section \<open>Properties of the converter\<close>

lemma split_on_nonempty: "split_on sep s \<noteq> []"
  by (induction s) (auto split: list.splits)

lemma join_Cons: "ls \<noteq> [] \<Longrightarrow> join sep (l # ls) = l @ sep @ join sep ls"
  by (cases ls) auto

lemma join_split_on: "join [sep] (split_on sep s) = s"
proof (induction s)
  case Nil
  show ?case by simp
next
  case (Cons c cs)
  obtain l ls where sp: "split_on sep cs = l # ls"
    using split_on_nonempty [of sep cs] by (cases "split_on sep cs") auto
  show ?case
  proof (cases "c = sep")
    case True
    then show ?thesis using Cons.IH sp by (simp add: join_Cons)
  next
    case False
    have "join [sep] ((c # l) # ls) = c # join [sep] (l # ls)"
      by (cases ls) auto
    then show ?thesis using False Cons.IH sp by simp
  qed
qed

lemma split_on_no_sep: "l \<in> set (split_on sep s) \<Longrightarrow> sep \<notin> set l"
proof (induction s arbitrary: l)
  case Nil
  then show ?case by simp
next
  case (Cons c cs)
  obtain m ms where sp: "split_on sep cs = m # ms"
    using split_on_nonempty [of sep cs] by (cases "split_on sep cs") auto
  show ?case
  proof (cases "c = sep")
    case True
    then show ?thesis using Cons sp by auto
  next
    case False
    then have "l = c # m \<or> l \<in> set ms" using Cons.prems sp by auto
    moreover have "sep \<notin> set m" using Cons.IH [of m] sp by simp
    moreover have "l \<in> set ms \<Longrightarrow> sep \<notin> set l" using Cons.IH [of l] sp by simp
    ultimately show ?thesis using False by auto
  qed
qed

lemma trim_subset: "set (trim s) \<subseteq> set s"
proof -
  have "set (trim s) \<subseteq> set (rev (dropWhile isWhiteSpace s))"
    unfolding trim_def using set_dropWhileD by fastforce
  also have "\<dots> \<subseteq> set s" using set_dropWhileD by fastforce
  finally show ?thesis .
qed

lemma trim_hd: "trim s \<noteq> [] \<Longrightarrow> \<not> isWhiteSpace (hd (trim s))"
proof -
  assume ne: "trim s \<noteq> []"
  let ?d = "dropWhile isWhiteSpace s"
  have dne: "?d \<noteq> []"
  proof
    assume e: "?d = []"
    have "trim s = []" unfolding trim_def e by simp
    with ne show False by simp
  qed
  have h: "\<not> isWhiteSpace (hd ?d)" using dne hd_dropWhile by blast
  let ?r = "dropWhile isWhiteSpace (rev ?d)"
  have rne: "?r \<noteq> []" using ne by (simp add: trim_def)
  have "last (rev ?d) = hd ?d" using dne by (simp add: last_rev)
  moreover have "last ?r = last (rev ?d)"
    using rne by (metis append_Nil2 last_appendR takeWhile_dropWhile_id)
  ultimately have "last ?r = hd ?d" by simp
  then have "hd (rev ?r) = hd ?d" using rne by (simp add: hd_rev)
  then show ?thesis using h by (simp add: trim_def)
qed

lemma trim_last: "trim s \<noteq> [] \<Longrightarrow> \<not> isWhiteSpace (last (trim s))"
proof -
  assume ne: "trim s \<noteq> []"
  let ?r = "dropWhile isWhiteSpace (rev (dropWhile isWhiteSpace s))"
  have rne: "?r \<noteq> []" using ne by (simp add: trim_def)
  then have "\<not> isWhiteSpace (hd ?r)" using hd_dropWhile by blast
  then show ?thesis using rne by (simp add: trim_def last_rev)
qed

text \<open>
  Claim C10. When the input file can be read, the converter produces a document whose
  \<open>pathnames\<close> array is exactly the trimmed, non-empty lines of the input in their
  original order (the lines being the pieces between line feeds, which joined by line
  feeds give the input back), and whose \<open>metadata.totalPathnames\<close> is the length of
  that array. No entry is empty, starts or ends with white space, or contains a line feed.
\<close>

theorem convert_pathnames_trimmed_lines:
  assumes "readFile inputFile = Inr content"
  shows "\<exists>d. convertPathnamesToJson readFile basename now inputFile = Inr d
     \<and> join [CHR 0x0A] (split_on CHR 0x0A content) = content
     \<and> pathnames d = filter (\<lambda>l. l \<noteq> []) (map trim (split_on CHR 0x0A content))
     \<and> totalPathnames (metadata d) = length (pathnames d)
     \<and> (\<forall>p \<in> set (pathnames d). p \<noteq> [] \<and> \<not> isWhiteSpace (hd p) \<and> \<not> isWhiteSpace (last p)
            \<and> CHR 0x0A \<notin> set p)"
proof -
  let ?ps = "filter (\<lambda>l. l \<noteq> []) (map trim (split_on CHR 0x0A content))"
  obtain d where d: "convertPathnamesToJson readFile basename now inputFile = Inr d"
    and p: "pathnames d = ?ps" and t: "totalPathnames (metadata d) = length ?ps"
    using assms by (simp add: convertPathnamesToJson_def Let_def)
  have "p \<noteq> [] \<and> \<not> isWhiteSpace (hd p) \<and> \<not> isWhiteSpace (last p) \<and> CHR 0x0A \<notin> set p"
    if "p \<in> set ?ps" for p
  proof -
    from that obtain l where l: "l \<in> set (split_on CHR 0x0A content)" and pl: "p = trim l"
      and ne: "p \<noteq> []" by auto
    have "CHR 0x0A \<notin> set l" using l by (rule split_on_no_sep)
    then have "CHR 0x0A \<notin> set p" using trim_subset [of l] pl by auto
    then show ?thesis using ne pl trim_hd [of l] trim_last [of l] by simp
  qed
  then show ?thesis using d p t join_split_on [of "CHR 0x0A" content] by auto
qed

theorem convert_pathnames_trimmed_lines_witness:
  "(\<lambda>f. Inr (''/a'' @ [CHR 0x0A, CHR 0x0A] @ ''  /b c '' @ [CHR 0x09, CHR 0x0A])) ''in.txt''
      = (Inr (''/a'' @ [CHR 0x0A, CHR 0x0A] @ ''  /b c '' @ [CHR 0x09, CHR 0x0A]) :: string + string)
   \<and> (\<exists>d. convertPathnamesToJson
            (\<lambda>f. Inr (''/a'' @ [CHR 0x0A, CHR 0x0A] @ ''  /b c '' @ [CHR 0x09, CHR 0x0A]))
            (\<lambda>p ext. ''in'') ''2025'' ''in.txt'' = Inr d
          \<and> pathnames d = [''/a'', ''/b c''] \<and> totalPathnames (metadata d) = 2)"
  using convert_pathnames_trimmed_lines
    [of "\<lambda>f. Inr (''/a'' @ [CHR 0x0A, CHR 0x0A] @ ''  /b c '' @ [CHR 0x09, CHR 0x0A])" "''in.txt''"
        "''/a'' @ [CHR 0x0A, CHR 0x0A] @ ''  /b c '' @ [CHR 0x09, CHR 0x0A]" "\<lambda>p ext. ''in''" "''2025''"]
  by (auto simp: trim_def isWhiteSpace_def)


section \<open>Properties of the redirect auditor\<close>

text \<open>
  Claim C3, as stated, fails: the old URL below answers 301 and following it ends at
  \<open>/other\<close> with status 200, not at the expected \<open>/new\<close>; it does not correctly redirect
  to the expected URL, yet no row is appended.
\<close>

theorem checkRedirect_wrong_destination_not_recorded:
  "\<not> correctly_redirects
        (\<lambda>u. Inr \<lparr> m_status = 301, m_location = Some ''/other'' \<rparr>)
        (\<lambda>u. Inr \<lparr> f_url = baseUrl_audit @ ''/other'', f_status = 200 \<rparr>) ''/old'' ''/new''
   \<and> f_url \<lparr> f_url = baseUrl_audit @ ''/other'', f_status = 200 \<rparr> \<noteq> baseUrl_audit @ ''/new''
   \<and> checkRedirect
        (\<lambda>u. Inr \<lparr> m_status = 301, m_location = Some ''/other'' \<rparr>)
        (\<lambda>u. Inr \<lparr> f_url = baseUrl_audit @ ''/other'', f_status = 200 \<rparr>) ''/old'' ''/new'' [] = []"
  by (simp add: correctly_redirects_def checkRedirect_def)

text \<open>
  Claim C3, amended. \<open>checkRedirect\<close> appends exactly one row when a request fails, when
  the first response is neither a redirect (301, 302, 307, 308) nor 200, or when it is a
  redirect and the followed response neither ends at \<open>baseUrl + new\<close> nor has status
  200; in every other case it leaves \<open>failedRedirects\<close> as it was. The row names the
  old and the expected path. So a redirect that ends at the expected URL is never
  recorded, and one that ends elsewhere is recorded unless the final status is 200.
\<close>

theorem checkRedirect_records_failure:
  "(recorded_as_failure fetchManual fetchFollow old new \<longrightarrow>
      (\<exists>row. checkRedirect fetchManual fetchFollow old new failed = failed @ [row]
         \<and> fr_from row = old \<and> fr_expected row = new))
   \<and> (\<not> recorded_as_failure fetchManual fetchFollow old new \<longrightarrow>
      checkRedirect fetchManual fetchFollow old new failed = failed)
   \<and> (correctly_redirects fetchManual fetchFollow old new \<longrightarrow>
      \<not> recorded_as_failure fetchManual fetchFollow old new)"
proof (cases "fetchManual (baseUrl_audit @ old)")
  case (Inl err)
  then show ?thesis
    by (simp add: recorded_as_failure_def correctly_redirects_def checkRedirect_def error_row_def)
next
  case (Inr r)
  show ?thesis
  proof (cases "fetchFollow (baseUrl_audit @ old)")
    case (Inl err)
    with Inr show ?thesis
      by (simp add: recorded_as_failure_def correctly_redirects_def checkRedirect_def
          error_row_def Let_def)
  next
    case f: (Inr f)
    with Inr show ?thesis
      by (auto simp: recorded_as_failure_def correctly_redirects_def checkRedirect_def Let_def)
  qed
qed

theorem checkRedirect_records_failure_witness:
  "recorded_as_failure
      (\<lambda>u. Inr \<lparr> m_status = 301, m_location = Some ''/other'' \<rparr>)
      (\<lambda>u. Inr \<lparr> f_url = baseUrl_audit @ ''/other'', f_status = 404 \<rparr>) ''/old'' ''/new''
   \<and> (\<exists>row. checkRedirect
          (\<lambda>u. Inr \<lparr> m_status = 301, m_location = Some ''/other'' \<rparr>)
          (\<lambda>u. Inr \<lparr> f_url = baseUrl_audit @ ''/other'', f_status = 404 \<rparr>) ''/old'' ''/new'' []
            = [] @ [row]
        \<and> fr_from row = ''/old'' \<and> fr_expected row = ''/new'')
   \<and> \<not> recorded_as_failure
      (\<lambda>u. Inr \<lparr> m_status = 200, m_location = None \<rparr>)
      (\<lambda>u. Inl ''unused'') ''/kept'' ''/new''
   \<and> checkRedirect
      (\<lambda>u. Inr \<lparr> m_status = 200, m_location = None \<rparr>)
      (\<lambda>u. Inl ''unused'') ''/kept'' ''/new'' [] = []
   \<and> correctly_redirects
      (\<lambda>u. Inr \<lparr> m_status = 308, m_location = Some ''/new'' \<rparr>)
      (\<lambda>u. Inr \<lparr> f_url = baseUrl_audit @ ''/new'', f_status = 500 \<rparr>) ''/old'' ''/new''
   \<and> \<not> recorded_as_failure
      (\<lambda>u. Inr \<lparr> m_status = 308, m_location = Some ''/new'' \<rparr>)
      (\<lambda>u. Inr \<lparr> f_url = baseUrl_audit @ ''/new'', f_status = 500 \<rparr>) ''/old'' ''/new''"
proof -
  have a: "recorded_as_failure
      (\<lambda>u. Inr \<lparr> m_status = 301, m_location = Some ''/other'' \<rparr>)
      (\<lambda>u. Inr \<lparr> f_url = baseUrl_audit @ ''/other'', f_status = 404 \<rparr>) ''/old'' ''/new''"
    by (simp add: recorded_as_failure_def)
  have b: "\<not> recorded_as_failure
      (\<lambda>u. Inr \<lparr> m_status = 200, m_location = None \<rparr>)
      (\<lambda>u. Inl ''unused'') ''/kept'' ''/new''"
    by (simp add: recorded_as_failure_def)
  have c: "correctly_redirects
      (\<lambda>u. Inr \<lparr> m_status = 308, m_location = Some ''/new'' \<rparr>)
      (\<lambda>u. Inr \<lparr> f_url = baseUrl_audit @ ''/new'', f_status = 500 \<rparr>) ''/old'' ''/new''"
    by (simp add: correctly_redirects_def)
  show ?thesis
    using a b c
      checkRedirect_records_failure
        [of "\<lambda>u. Inr \<lparr> m_status = 301, m_location = Some ''/other'' \<rparr>"
            "\<lambda>u. Inr \<lparr> f_url = baseUrl_audit @ ''/other'', f_status = 404 \<rparr>" "''/old''" "''/new''" "[]"]
      checkRedirect_records_failure
        [of "\<lambda>u. Inr \<lparr> m_status = 200, m_location = None \<rparr>"
            "\<lambda>u. Inl ''unused''" "''/kept''" "''/new''" "[]"]
      checkRedirect_records_failure
        [of "\<lambda>u. Inr \<lparr> m_status = 308, m_location = Some ''/new'' \<rparr>"
            "\<lambda>u. Inr \<lparr> f_url = baseUrl_audit @ ''/new'', f_status = 500 \<rparr>" "''/old''" "''/new''" "[]"]
    by blast
qed


section \<open>Properties of the validity filter\<close>

text \<open>
  Claim C4, as stated, fails: the candidate path \<open>/a%25%25b\<close> is accepted, by
  \<open>isValidPathname\<close> and, as the pathname of a URL, by \<open>isValidUrl\<close>. Its two \<open>%\<close>
  characters are not consecutive.
\<close>

theorem validity_filter_accepts_encoded_percents:
  "isValidPathname ''/a%25%25b''
   \<and> isValidUrl
        (\<lambda>s. Some \<lparr> url_href = ''https://example.com/a%25%25b'', url_protocol = ''https:'',
                     url_origin = ''https://example.com'', url_hostname = ''example.com'',
                     url_pathname = ''/a%25%25b'' \<rparr>)
        ''https://example.com/a%25%25b''"
  by (simp add: isValidPathname_def isValidUrl_def startsWith_def leading_segment_has_def
      isWhiteSpace_def)

lemma includes_double_percent_invalid: "includes_str path ''%%'' \<Longrightarrow> \<not> isValidPathname path"
  by (auto simp: isValidPathname_def startsWith_def)

lemma isValidPathname_examples:
  "\<not> isValidPathname ''/foo%3Cscript%3E''" "isValidPathname ''/normal/page.html''"
  "isValidPathname ''/a%25%25b''" "\<not> isValidPathname ''/a%%b''" "isValidPathname ''/''"
  by (simp_all add: isValidPathname_def startsWith_def leading_segment_has_def isWhiteSpace_def)

lemma includes_double_percent_invalid_url:
  "parseURL url = Some u \<Longrightarrow> includes_str (url_pathname u) ''%%''
     \<Longrightarrow> \<not> isValidUrl parseURL url"
  by (simp add: isValidUrl_def Let_def)

lemma isValidUrl_examples:
  "\<not> isValidUrl (\<lambda>s. Some (u\<lparr>url_pathname := ''/foo%3Cscript%3E''\<rparr>)) url"
  "isValidUrl (\<lambda>s. Some (u\<lparr>url_pathname := ''/normal/page.html''\<rparr>)) url"
  "isValidUrl (\<lambda>s. Some (u\<lparr>url_pathname := ''/a%25%25b''\<rparr>)) url"
  "isValidUrl (\<lambda>s. Some (u\<lparr>url_pathname := ''/''\<rparr>)) url"
  by (simp_all add: isValidUrl_def startsWith_def leading_segment_has_def)

lemma cleanPathname_decoded_percents:
  "decodeURIComponent ''/a%25%25b'' = Some ''/a%%b''
     \<Longrightarrow> cleanPathname decodeURIComponent ''/a%25%25b'' = ''/a%%b''"
  by (simp add: cleanPathname_def first_piece_def startsWith_def)

text \<open>
  Claim C4, amended. Both filters reject \<open>/foo%3Cscript%3E\<close> and accept
  \<open>/normal/page.html\<close> and the root path \<open>/\<close>; both reject every path that contains
  two consecutive \<open>%\<close> characters; both accept \<open>/a%25%25b\<close> as it is written. In
  \<open>extractPathnames\<close> that path is rejected after \<open>cleanPathname\<close> has decoded it to
  \<open>/a%%b\<close>. (\<open>isValidUrl\<close> is applied to the pathname of the parsed URL, here for any
  parser that returns a URL with the pathname in question.)
\<close>

theorem validity_filter_examples:
  "\<not> isValidPathname ''/foo%3Cscript%3E''
   \<and> isValidPathname ''/normal/page.html''
   \<and> isValidPathname ''/a%25%25b''
   \<and> isValidPathname ''/''
   \<and> \<not> isValidUrl (\<lambda>s. Some (u\<lparr>url_pathname := ''/foo%3Cscript%3E''\<rparr>)) url
   \<and> isValidUrl (\<lambda>s. Some (u\<lparr>url_pathname := ''/normal/page.html''\<rparr>)) url
   \<and> isValidUrl (\<lambda>s. Some (u\<lparr>url_pathname := ''/a%25%25b''\<rparr>)) url
   \<and> isValidUrl (\<lambda>s. Some (u\<lparr>url_pathname := ''/''\<rparr>)) url
   \<and> (includes_str path ''%%'' \<longrightarrow>
         \<not> isValidPathname path
         \<and> \<not> isValidUrl (\<lambda>s. Some (u\<lparr>url_pathname := path\<rparr>)) url)
   \<and> (decodeURIComponent ''/a%25%25b'' = Some ''/a%%b'' \<longrightarrow>
         \<not> isValidPathname (cleanPathname decodeURIComponent ''/a%25%25b''))"
proof -
  have "\<not> isValidUrl (\<lambda>s. Some (u\<lparr>url_pathname := path\<rparr>)) url"
    if "includes_str path ''%%''"
    using that
      includes_double_percent_invalid_url
        [of "\<lambda>s. Some (u\<lparr>url_pathname := path\<rparr>)" url "u\<lparr>url_pathname := path\<rparr>"]
    by simp
  moreover have "\<not> isValidPathname (cleanPathname decodeURIComponent ''/a%25%25b'')"
    if "decodeURIComponent ''/a%25%25b'' = Some ''/a%%b''"
    using that cleanPathname_decoded_percents [of decodeURIComponent]
      isValidPathname_examples(4) by simp
  ultimately show ?thesis
    using isValidPathname_examples isValidUrl_examples [of u url]
      includes_double_percent_invalid [of path]
    by blast
qed

theorem validity_filter_examples_witness:
  "includes_str ''/a%%b'' ''%%''
   \<and> \<not> isValidPathname ''/a%%b''
   \<and> \<not> isValidUrl
        (\<lambda>s. Some (\<lparr> url_href = ''https://example.com/a%%b'', url_protocol = ''https:'',
                      url_origin = ''https://example.com'', url_hostname = ''example.com'',
                      url_pathname = ''/'' \<rparr> \<lparr>url_pathname := ''/a%%b''\<rparr>))
        ''https://example.com/a%%b''
   \<and> (\<lambda>s. Some ''/a%%b'') ''/a%25%25b'' = Some ''/a%%b''
   \<and> \<not> isValidPathname (cleanPathname (\<lambda>s. Some ''/a%%b'') ''/a%25%25b'')"
proof -
  have h: "includes_str ''/a%%b'' ''%%''"
    by (simp add: startsWith_def)
  show ?thesis
    using h validity_filter_examples
      [of "\<lparr> url_href = ''https://example.com/a%%b'', url_protocol = ''https:'',
            url_origin = ''https://example.com'', url_hostname = ''example.com'',
            url_pathname = ''/'' \<rparr>"
          "''https://example.com/a%%b''" "''/a%%b''" "\<lambda>s. Some ''/a%%b''"]
    by simp
qed


section \<open>Properties of the pathname reduction\<close>

lemma cleanPathname_slash: "startsWith (cleanPathname decodeURIComponent path) ''/''"
  by (simp add: cleanPathname_def Let_def startsWith_def)

text \<open>
  Claim C7. The output of \<open>extractPathnames\<close> has no duplicates, is sorted in the order
  of the code units, and every entry starts with \<open>/\<close>. It depends on the set of
  discovered URLs only, not on their order or multiplicity, and deduplicating and sorting
  it again gives it back.
\<close>

theorem extractPathnames_sorted_unique:
  "distinct (extractPathnames parseURL decodeURIComponent urls baseUrl)
   \<and> sorted (extractPathnames parseURL decodeURIComponent urls baseUrl)
   \<and> (\<forall>p \<in> set (extractPathnames parseURL decodeURIComponent urls baseUrl). startsWith p ''/'')
   \<and> sort (new_Set (extractPathnames parseURL decodeURIComponent urls baseUrl))
        = extractPathnames parseURL decodeURIComponent urls baseUrl
   \<and> (set urls' = set urls \<longrightarrow>
        extractPathnames parseURL decodeURIComponent urls' baseUrl
          = extractPathnames parseURL decodeURIComponent urls baseUrl)"
proof -
  let ?keep = "\<lambda>url. case parseURL url of
                        Some u \<Rightarrow> url_hostname u = url_hostname baseUrl
                      | None \<Rightarrow> False"
  let ?path = "\<lambda>url. case parseURL url of
                        Some u \<Rightarrow> cleanPathname decodeURIComponent
                                    (if url_pathname u = [] then ''/'' else url_pathname u)
                      | None \<Rightarrow> ''/''"
  let ?cand = "\<lambda>us. new_Set (filter (\<lambda>path. isValidPathname path) (map ?path (filter ?keep us)))"
  have out: "extractPathnames parseURL decodeURIComponent us baseUrl = sort (?cand us)" for us
    by (simp add: extractPathnames_def Let_def)
  have d: "distinct (sort (?cand urls))"
    by (simp add: new_Set_distinct)
  have s: "sorted (sort (?cand urls))"
    by simp
  have slash: "startsWith p ''/''" if "p \<in> set (sort (?cand urls))" for p
  proof -
    from that obtain url where "p = ?path url"
      by (auto simp: new_Set_set)
    then show ?thesis
      by (cases "parseURL url") (simp_all add: cleanPathname_slash, simp add: startsWith_def)
  qed
  have again: "sort (new_Set (sort (?cand urls))) = sort (?cand urls)"
    using d s by (simp add: new_Set_of_distinct sort_key_id_if_sorted)
  have same: "sort (?cand urls') = sort (?cand urls)" if "set urls' = set urls"
  proof (rule sorted_distinct_set_unique)
    show "set (sort (?cand urls')) = set (sort (?cand urls))"
      using that by (simp add: new_Set_set)
  qed (simp_all add: new_Set_distinct)
  show ?thesis
    unfolding out using d s slash again same by blast
qed

theorem extractPathnames_sorted_unique_witness:
  "set [''https://x.com/b'', ''https://y.org/c'', ''https://x.com/a?q'', ''https://x.com/b'']
     = set [''https://x.com/a?q'', ''https://x.com/b'', ''https://y.org/c'']
   \<and> extractPathnames
         (\<lambda>s. if startsWith s ''https://x.com''
              then Some \<lparr> url_href = s, url_protocol = ''https:'', url_origin = ''https://x.com'',
                          url_hostname = ''x.com'', url_pathname = drop 13 s \<rparr>
              else None)
         (\<lambda>s. Some s)
         [''https://x.com/b'', ''https://y.org/c'', ''https://x.com/a?q'', ''https://x.com/b'']
         \<lparr> url_href = ''https://x.com/'', url_protocol = ''https:'', url_origin = ''https://x.com'',
           url_hostname = ''x.com'', url_pathname = ''/'' \<rparr>
       = extractPathnames
         (\<lambda>s. if startsWith s ''https://x.com''
              then Some \<lparr> url_href = s, url_protocol = ''https:'', url_origin = ''https://x.com'',
                          url_hostname = ''x.com'', url_pathname = drop 13 s \<rparr>
              else None)
         (\<lambda>s. Some s)
         [''https://x.com/a?q'', ''https://x.com/b'', ''https://y.org/c'']
         \<lparr> url_href = ''https://x.com/'', url_protocol = ''https:'', url_origin = ''https://x.com'',
           url_hostname = ''x.com'', url_pathname = ''/'' \<rparr>"
proof -
  have h: "set [''https://x.com/b'', ''https://y.org/c'', ''https://x.com/a?q'', ''https://x.com/b'']
     = set [''https://x.com/a?q'', ''https://x.com/b'', ''https://y.org/c'']"
    by auto
  show ?thesis
    using h extractPathnames_sorted_unique
      [of "\<lambda>s. if startsWith s ''https://x.com''
              then Some \<lparr> url_href = s, url_protocol = ''https:'', url_origin = ''https://x.com'',
                          url_hostname = ''x.com'', url_pathname = drop 13 s \<rparr>
              else None"
          "\<lambda>s. Some s"
          "[''https://x.com/a?q'', ''https://x.com/b'', ''https://y.org/c'']"
          "\<lparr> url_href = ''https://x.com/'', url_protocol = ''https:'', url_origin = ''https://x.com'',
           url_hostname = ''x.com'', url_pathname = ''/'' \<rparr>"
          "[''https://x.com/b'', ''https://y.org/c'', ''https://x.com/a?q'', ''https://x.com/b'']"]
    by blast
qed

lemma extractPathnames_example:
  "extractPathnames
         (\<lambda>s. if startsWith s ''https://x.com''
              then Some \<lparr> url_href = s, url_protocol = ''https:'', url_origin = ''https://x.com'',
                          url_hostname = ''x.com'', url_pathname = drop 13 s \<rparr>
              else None)
         (\<lambda>s. Some s)
         [''https://x.com/b'', ''https://y.org/c'', ''https://x.com/a?q'', ''https://x.com/b'']
         \<lparr> url_href = ''https://x.com/'', url_protocol = ''https:'', url_origin = ''https://x.com'',
           url_hostname = ''x.com'', url_pathname = ''/'' \<rparr> = [''/a'', ''/b'']"
  by code_simp


section \<open>No URL is fetched twice\<close>

text \<open>
  Claim C2. In the state a run of \<open>crawlWebsite\<close> ends in, the log of the calls of
  \<open>fetchPage\<close> has no URL twice and as many entries as the set \<open>visited\<close> has
  members, and \<open>toVisit\<close> and \<open>visited\<close> are disjoint. The invariant behind this
  (\<open>visited\<close> and \<open>toVisit\<close> disjoint, the log equal to \<open>visited\<close>) holds when the
  loop is entered and is kept by every step of it: taking a batch out of \<open>toVisit\<close>,
  starting the tasks of a batch that is no longer in \<open>toVisit\<close>, finishing a task in
  whatever order, a whole iteration, the whole loop. No step removes a member of
  \<open>visited\<close>; a found URL that is visited is not queued, and the task of a URL that
  is visited returns at once.
\<close>

theorem crawl_no_url_fetched_twice:
  "distinct (fetched (crawlFinal P startUrl maxPages maxDepth baseUrl))
   \<and> length (fetched (crawlFinal P startUrl maxPages maxDepth baseUrl))
       = card (set (visited (crawlFinal P startUrl maxPages maxDepth baseUrl)))
   \<and> set (toVisit (crawlFinal P startUrl maxPages maxDepth baseUrl))
       \<inter> set (visited (crawlFinal P startUrl maxPages maxDepth baseUrl)) = {}
   \<and> frontier_inv (initial_state startUrl)
   \<and> (frontier_inv st \<longrightarrow>
         frontier_inv (st\<lparr> toVisit := foldl (\<lambda>s url. set_delete url s) (toVisit st) batch \<rparr>)
       \<and> (set batch \<inter> set (toVisit st) = {} \<longrightarrow>
            frontier_inv (fst (startTasks P batch st pending)))
       \<and> frontier_inv (finishTask P maxDepth baseUrl url outcome st)
       \<and> frontier_inv (processBatch P maxDepth baseUrl st)
       \<and> frontier_inv (crawlLoop P maxPages maxDepth baseUrl st))
   \<and> (\<exists>more. visited (fst (startTasks P batch st pending)) = visited st @ more)
   \<and> visited (finishTask P maxDepth baseUrl url outcome st) = visited st
   \<and> (\<exists>more. visited (processBatch P maxDepth baseUrl st) = visited st @ more)
   \<and> (\<exists>more. visited (crawlLoop P maxPages maxDepth baseUrl st) = visited st @ more)
   \<and> (foundUrl \<in> set (visited st) \<longrightarrow>
         toVisit (addFound maxDepth url st foundUrl) = toVisit st
       \<and> startTasks P (foundUrl # batch) st pending = startTasks P batch st pending)"
proof -
  let ?final = "crawlFinal P startUrl maxPages maxDepth baseUrl"
  have inv: "frontier_inv ?final"
    by (rule frontier_inv_crawlFinal)
  then have d: "distinct (fetched ?final)"
    and t: "set (toVisit ?final) \<inter> set (visited ?final) = {}"
    by (simp_all add: frontier_inv_def)
  have c: "length (fetched ?final) = card (set (visited ?final))"
    using inv by (simp add: frontier_inv_def distinct_card)
  show ?thesis
    by (simp add: d c t frontier_inv_initial frontier_inv_dequeue frontier_inv_startTasks
        frontier_inv_finishTask frontier_inv_processBatch frontier_inv_crawlLoop
        startTasks_visited_grows finishTask_visited processBatch_visited_grows
        crawlLoop_visited_grows addFound_visited_not_queued)
qed

theorem crawl_no_url_fetched_twice_witness:
  "frontier_inv ex_state
   \<and> set [''https://example.com/contact''] \<inter> set (toVisit ex_state) = {}
   \<and> ''https://example.com'' \<in> set (visited ex_state)
   \<and> frontier_inv (fst (startTasks ex_platform [''https://example.com/contact''] ex_state []))
   \<and> frontier_inv (processBatch ex_platform 2 ex_baseUrl ex_state)
   \<and> frontier_inv (crawlLoop ex_platform 50 2 ex_baseUrl ex_state)
   \<and> toVisit (addFound 2 ''https://example.com/about'' ex_state ''https://example.com'')
       = toVisit ex_state
   \<and> startTasks ex_platform [''https://example.com'', ''https://example.com/contact''] ex_state []
       = startTasks ex_platform [''https://example.com/contact''] ex_state []
   \<and> distinct (fetched (crawlFinal ex_platform ''https://example.com'' 50 2 ex_baseUrl))"
proof -
  have h1: "frontier_inv ex_state"
    by (simp add: frontier_inv_def ex_state_def)
  have h2: "set [''https://example.com/contact''] \<inter> set (toVisit ex_state) = {}"
    by (simp add: ex_state_def)
  have h3: "''https://example.com'' \<in> set (visited ex_state)"
    by (simp add: ex_state_def)
  show ?thesis
    using h1 h2 h3
      crawl_no_url_fetched_twice
        [of ex_platform "''https://example.com''" 50 2 ex_baseUrl ex_state
            "[''https://example.com/contact'']" "[]" "''https://example.com/about''"
            "Inl ''unused''" "''https://example.com''"]
    by blast
qed


section \<open>The output holds pathnames of the seed's host only\<close>

text \<open>
  Claim C1. For a seed URL that parses, \<open>main\<close> writes no file or writes the pathnames
  that \<open>extractPathnames\<close> returns for the result of the crawl, one per line. Each of
  these pathnames is the cleaned pathname of a discovered URL whose hostname is the
  hostname of the seed URL, and every discovered URL has passed \<open>isSameDomain\<close>: its
  hostname is the seed's. This holds for every platform, so for every sequence of
  fetched pages.
\<close>

theorem crawl_output_same_host:
  assumes "new_URL P websiteUrl = Some baseUrl"
  shows "\<exists>result rep paths.
           crawlWebsite P websiteUrl maxPages maxDepth = Some result
         \<and> mainCrawl P decodeURIComponent websiteUrl maxPages maxDepth = Some rep
         \<and> paths = extractPathnames (new_URL P) decodeURIComponent (r_urls result) baseUrl
         \<and> (written rep = None \<or> written rep = Some (''url.txt'', join [CHR 0x0A] paths))
         \<and> (\<forall>p \<in> set paths.
               \<exists>u \<in> set (discoveredUrls (crawlFinal P websiteUrl maxPages maxDepth baseUrl)).
               \<exists>uo. new_URL P u = Some uo \<and> url_hostname uo = url_hostname baseUrl
                  \<and> p = cleanPathname decodeURIComponent
                           (if url_pathname uo = [] then ''/'' else url_pathname uo))
         \<and> (\<forall>u \<in> set (discoveredUrls (crawlFinal P websiteUrl maxPages maxDepth baseUrl)).
               isSameDomain P u baseUrl
             \<and> (\<exists>uo. new_URL P u = Some uo \<and> url_hostname uo = url_hostname baseUrl))"
proof -
  let ?final = "crawlFinal P websiteUrl maxPages maxDepth baseUrl"
  let ?result = "\<lparr> r_urls = sort (discoveredUrls ?final), r_errors = errors ?final,
                   r_pagesProcessed = pagesProcessed ?final,
                   r_totalDiscovered = length (discoveredUrls ?final) \<rparr>"
  let ?paths = "extractPathnames (new_URL P) decodeURIComponent (r_urls ?result) baseUrl"
  have res: "crawlWebsite P websiteUrl maxPages maxDepth = Some ?result"
    using assms by (simp add: crawlWebsite_def Let_def)
  have rep: "mainCrawl P decodeURIComponent websiteUrl maxPages maxDepth
               = Some (reportResult P decodeURIComponent baseUrl ?result)"
    using assms res by (simp add: mainCrawl_def)
  have wr: "written (reportResult P decodeURIComponent baseUrl ?result) = None
            \<or> written (reportResult P decodeURIComponent baseUrl ?result)
                = Some (''url.txt'', join [CHR 0x0A] ?paths)"
    by (simp add: reportResult_def Let_def)
  have paths: "\<exists>u \<in> set (discoveredUrls ?final).
                 \<exists>uo. new_URL P u = Some uo \<and> url_hostname uo = url_hostname baseUrl
                    \<and> p = cleanPathname decodeURIComponent
                             (if url_pathname uo = [] then ''/'' else url_pathname uo)"
    if "p \<in> set ?paths" for p
    using extractPathnames_origin [OF that] by simp
  have disc: "isSameDomain P u baseUrl
              \<and> (\<exists>uo. new_URL P u = Some uo \<and> url_hostname uo = url_hostname baseUrl)"
    if "u \<in> set (discoveredUrls ?final)" for u
  proof -
    have "isSameDomain P u baseUrl"
      using that crawlFinal_same_host [of P baseUrl websiteUrl maxPages maxDepth]
      by (simp add: same_host_inv_def list_all_iff)
    then show ?thesis
      by (auto simp: isSameDomain_def split: option.splits)
  qed
  show ?thesis
    using res rep wr paths disc by blast
qed

theorem crawl_output_same_host_witness:
  "new_URL ex_platform ''https://example.com'' = Some ex_baseUrl
   \<and> (\<exists>result rep paths.
           crawlWebsite ex_platform ''https://example.com'' 50 2 = Some result
         \<and> mainCrawl ex_platform (\<lambda>s. Some s) ''https://example.com'' 50 2 = Some rep
         \<and> paths = extractPathnames (new_URL ex_platform) (\<lambda>s. Some s) (r_urls result) ex_baseUrl
         \<and> (written rep = None \<or> written rep = Some (''url.txt'', join [CHR 0x0A] paths))
         \<and> (\<forall>p \<in> set paths.
               \<exists>u \<in> set (discoveredUrls
                           (crawlFinal ex_platform ''https://example.com'' 50 2 ex_baseUrl)).
               \<exists>uo. new_URL ex_platform u = Some uo
                  \<and> url_hostname uo = url_hostname ex_baseUrl
                  \<and> p = cleanPathname (\<lambda>s. Some s)
                           (if url_pathname uo = [] then ''/'' else url_pathname uo))
         \<and> (\<forall>u \<in> set (discoveredUrls
                           (crawlFinal ex_platform ''https://example.com'' 50 2 ex_baseUrl)).
               isSameDomain ex_platform u ex_baseUrl
             \<and> (\<exists>uo. new_URL ex_platform u = Some uo
                     \<and> url_hostname uo = url_hostname ex_baseUrl)))"
proof -
  have h: "new_URL ex_platform ''https://example.com'' = Some ex_baseUrl"
    by (simp add: ex_platform_def ex_new_URL_def ex_baseUrl_def)
  show ?thesis
    using h crawl_output_same_host
      [where P = ex_platform and websiteUrl = "''https://example.com''"
         and baseUrl = ex_baseUrl and maxPages = 50 and maxDepth = 2
         and decodeURIComponent = "\<lambda>s. Some s"]
    by blast
qed

text \<open>
  The crawl of the example site: the link to the other host is not in the output.
\<close>

lemma crawl_example_output:
  "map_option written (mainCrawl ex_platform (\<lambda>s. Some s) ''https://example.com'' 50 2)
     = Some (Some (''url.txt'', ''/about'' @ [CHR 0x0A] @ ''/contact'' @ [CHR 0x0A] @ ''/team/''))"
  by code_simp


section \<open>The depth limit 0\<close>

text \<open>
  Claim C5. The approximate depth of a page, the number of \<open>/\<close> in its URL minus 2, is
  not negative for a URL string with the scheme prefix \<open>http://\<close> or \<open>https://\<close>, which
  the website URL that \<open>main\<close> passes on always has; a URL found on a page of
  non-negative depth is not queued when \<open>maxDepth\<close> is 0. So with \<open>maxDepth = 0\<close> a
  crawl from such a seed calls \<open>fetchPage\<close> for the seed only (not even for it when
  \<open>maxPages\<close> is not positive) and ends with nothing queued.
\<close>

theorem crawl_maxDepth_zero:
  "(test_http_scheme url \<longrightarrow> 0 \<le> urlDepth url)
   \<and> (readWebsiteUrl P input = Some startUrl \<longrightarrow> test_http_scheme startUrl)
   \<and> (0 \<le> urlDepth url \<longrightarrow> toVisit (addFound 0 url st foundUrl) = toVisit st)
   \<and> (test_http_scheme startUrl \<longrightarrow>
         fetched (crawlFinal P startUrl maxPages 0 baseUrl)
           = (if 0 < maxPages then [startUrl] else [])
       \<and> toVisit (crawlFinal P startUrl maxPages 0 baseUrl)
           = (if 0 < maxPages then [] else [startUrl])
       \<and> pagesProcessed (crawlFinal P startUrl maxPages 0 baseUrl)
           = (if 0 < maxPages then 1 else 0))"
  using test_http_scheme_depth [of url] readWebsiteUrl_scheme [of P input startUrl]
    addFound_not_queued [of 0 url st foundUrl]
    crawlFinal_maxDepth_zero [of startUrl P maxPages baseUrl]
    test_http_scheme_depth [of startUrl]
  by blast

theorem crawl_maxDepth_zero_witness:
  "test_http_scheme ''https://example.com''
   \<and> readWebsiteUrl ex_platform '' example.com '' = Some ''https://example.com''
   \<and> 0 \<le> urlDepth ''https://example.com''
   \<and> toVisit (addFound 0 ''https://example.com'' ex_state ''https://example.com/contact'')
       = toVisit ex_state
   \<and> fetched (crawlFinal ex_platform ''https://example.com'' 50 0 ex_baseUrl)
       = [''https://example.com'']
   \<and> toVisit (crawlFinal ex_platform ''https://example.com'' 50 0 ex_baseUrl) = []
   \<and> pagesProcessed (crawlFinal ex_platform ''https://example.com'' 50 0 ex_baseUrl) = 1"
proof -
  have h1: "test_http_scheme ''https://example.com''"
    by (simp add: startsWith_def)
  have h2: "readWebsiteUrl ex_platform '' example.com '' = Some ''https://example.com''"
    by (simp add: readWebsiteUrl_def trim_def isWhiteSpace_def startsWith_def Let_def
        ex_platform_def ex_new_URL_def)
  show ?thesis
    using h1 h2
      crawl_maxDepth_zero
        [of "''https://example.com''" ex_platform "'' example.com ''" "''https://example.com''"
            ex_state "''https://example.com/contact''" 50 ex_baseUrl]
    by simp
qed


section \<open>The page budget\<close>

text \<open>
  Claim C6, as stated, fails for a page budget below -9, which the prompt of \<open>main\<close>
  accepts: with \<open>maxPages = -10\<close> the loop is never entered, and the final
  \<open>pagesProcessed\<close>, 0, exceeds \<open>maxPages + 9 = -1\<close>.
\<close>

theorem negative_budget_exceeds_bound:
  "\<not> int (pagesProcessed (crawlFinal ex_platform ''https://example.com'' (- 10) 2 ex_baseUrl))
       \<le> - 10 + 9"
  by (simp add: crawlFinal_no_budget initial_state_def)

text \<open>
  Claim C6, amended. The loop tests its condition before each batch: it ends when
  \<open>toVisit\<close> is empty or \<open>pagesProcessed\<close> has reached \<open>maxPages\<close>, and otherwise runs
  one more batch. A batch counts at most 10 pages; when the frontier invariant holds, as
  it does throughout a crawl, the batch is the first 10 members of \<open>toVisit\<close> (all
  of them when there are fewer) in insertion order, and every member is marked visited
  and counted. So the final \<open>pagesProcessed\<close> is at most \<open>maxPages + 9\<close> whenever
  \<open>maxPages\<close> is at least -9, in particular for every page budget that is not
  negative, and it is 0 when \<open>maxPages\<close> is not positive.
\<close>

theorem crawl_pages_overshoot:
  "(- 9 \<le> maxPages \<longrightarrow>
      int (pagesProcessed (crawlFinal P startUrl maxPages maxDepth baseUrl)) \<le> maxPages + 9)
   \<and> (maxPages \<le> 0 \<longrightarrow> pagesProcessed (crawlFinal P startUrl maxPages maxDepth baseUrl) = 0)
   \<and> (toVisit st = [] \<or> maxPages \<le> int (pagesProcessed st) \<longrightarrow>
        crawlLoop P maxPages maxDepth baseUrl st = st)
   \<and> (toVisit st \<noteq> [] \<and> int (pagesProcessed st) < maxPages \<longrightarrow>
        crawlLoop P maxPages maxDepth baseUrl st
          = crawlLoop P maxPages maxDepth baseUrl (processBatch P maxDepth baseUrl st))
   \<and> pagesProcessed (processBatch P maxDepth baseUrl st) \<le> pagesProcessed st + 10
   \<and> (frontier_inv st \<longrightarrow>
        visited (processBatch P maxDepth baseUrl st) = visited st @ take 10 (toVisit st)
      \<and> pagesProcessed (processBatch P maxDepth baseUrl st)
          = pagesProcessed st + length (take 10 (toVisit st)))"
proof -
  have "pagesProcessed (crawlFinal P startUrl maxPages maxDepth baseUrl) = 0" if "maxPages \<le> 0"
    using crawlFinal_no_budget [OF that] by (simp add: initial_state_def)
  moreover have "crawlLoop P maxPages maxDepth baseUrl st = st"
    if "toVisit st = [] \<or> maxPages \<le> int (pagesProcessed st)"
    using that by (intro crawlLoop_stop) auto
  ultimately show ?thesis
    using crawlFinal_pages_bound [of maxPages P startUrl maxDepth baseUrl]
      crawlLoop_continue [of st maxPages P maxDepth baseUrl]
      processBatch_at_most_ten [of P maxDepth baseUrl st]
      processBatch_whole_batch [of st P maxDepth baseUrl]
    by blast
qed

theorem crawl_pages_overshoot_witness:
  "- 9 \<le> (1::int)
   \<and> int (pagesProcessed (crawlFinal ex_platform ''https://example.com'' 1 2 ex_baseUrl)) \<le> 1 + 9
   \<and> (0::int) \<le> 0
   \<and> pagesProcessed (crawlFinal ex_platform ''https://example.com'' 0 2 ex_baseUrl) = 0
   \<and> toVisit ex_state \<noteq> [] \<and> int (pagesProcessed ex_state) < 50
   \<and> crawlLoop ex_platform 50 2 ex_baseUrl ex_state
       = crawlLoop ex_platform 50 2 ex_baseUrl (processBatch ex_platform 2 ex_baseUrl ex_state)
   \<and> int (pagesProcessed ex_state) \<ge> 1
   \<and> crawlLoop ex_platform 1 2 ex_baseUrl ex_state = ex_state
   \<and> frontier_inv ex_state
   \<and> visited (processBatch ex_platform 2 ex_baseUrl ex_state)
       = visited ex_state @ take 10 (toVisit ex_state)
   \<and> pagesProcessed (processBatch ex_platform 2 ex_baseUrl ex_state)
       = pagesProcessed ex_state + length (take 10 (toVisit ex_state))"
proof -
  have h1: "toVisit ex_state \<noteq> [] \<and> int (pagesProcessed ex_state) < 50"
    by (simp add: ex_state_def)
  have h2: "int (pagesProcessed ex_state) \<ge> 1"
    by (simp add: ex_state_def)
  have h3: "frontier_inv ex_state"
    by (simp add: frontier_inv_def ex_state_def)
  show ?thesis
    using h1 h2 h3
      crawl_pages_overshoot [of 1 ex_platform "''https://example.com''" 2 ex_baseUrl ex_state]
      crawl_pages_overshoot [of 0 ex_platform "''https://example.com''" 2 ex_baseUrl ex_state]
      crawl_pages_overshoot [of 50 ex_platform "''https://example.com''" 2 ex_baseUrl ex_state]
    by simp
qed


section \<open>No discovered URL, no file\<close>

text \<open>
  Claim C8. When the result of the crawl has no URL, \<open>main\<close> writes no file and prints
  the message that no URLs were discovered, followed, if errors were recorded, by a
  heading and one line for each recorded error, in order. When the result has a URL it
  writes \<open>url.txt\<close>. So for a crawl from a website URL that parses, no file is written
  if and only if no URL was discovered, and then every recorded error has its line.
\<close>

theorem no_urls_no_file:
  "(r_urls result = [] \<longrightarrow>
      written (reportResult P decodeURIComponent baseUrl result) = None
    \<and> printed (reportResult P decodeURIComponent baseUrl result)
        = no_urls_message #
          (if r_errors result = [] then []
           else ([CHR 0x0A] @ ''Errors encountered:'') # map error_line (r_errors result)))
   \<and> (r_urls result \<noteq> [] \<longrightarrow>
      written (reportResult P decodeURIComponent baseUrl result)
        = Some (''url.txt'', join [CHR 0x0A]
            (extractPathnames (new_URL P) decodeURIComponent (r_urls result) baseUrl)))
   \<and> includes_str no_urls_message ''No URLs discovered''
   \<and> (new_URL P websiteUrl = Some baseUrl \<longrightarrow>
        (\<exists>rep. mainCrawl P decodeURIComponent websiteUrl maxPages maxDepth = Some rep
           \<and> (written rep = None
                \<longleftrightarrow> discoveredUrls (crawlFinal P websiteUrl maxPages maxDepth baseUrl) = [])
           \<and> (discoveredUrls (crawlFinal P websiteUrl maxPages maxDepth baseUrl) = [] \<longrightarrow>
                 hd (printed rep) = no_urls_message
               \<and> (\<forall>e \<in> set (errors (crawlFinal P websiteUrl maxPages maxDepth baseUrl)).
                     error_line e \<in> set (printed rep)))))"
proof -
  have msg: "includes_str no_urls_message ''No URLs discovered''"
    by (simp add: no_urls_message_def cross_mark_def startsWith_def)
  have main: "\<exists>rep. mainCrawl P decodeURIComponent websiteUrl maxPages maxDepth = Some rep
           \<and> (written rep = None
                \<longleftrightarrow> discoveredUrls (crawlFinal P websiteUrl maxPages maxDepth baseUrl) = [])
           \<and> (discoveredUrls (crawlFinal P websiteUrl maxPages maxDepth baseUrl) = [] \<longrightarrow>
                 hd (printed rep) = no_urls_message
               \<and> (\<forall>e \<in> set (errors (crawlFinal P websiteUrl maxPages maxDepth baseUrl)).
                     error_line e \<in> set (printed rep)))"
    if base: "new_URL P websiteUrl = Some baseUrl"
  proof -
    let ?final = "crawlFinal P websiteUrl maxPages maxDepth baseUrl"
    let ?result = "\<lparr> r_urls = sort (discoveredUrls ?final), r_errors = errors ?final,
                     r_pagesProcessed = pagesProcessed ?final,
                     r_totalDiscovered = length (discoveredUrls ?final) \<rparr>"
    let ?rep = "reportResult P decodeURIComponent baseUrl ?result"
    have rep: "mainCrawl P decodeURIComponent websiteUrl maxPages maxDepth = Some ?rep"
      using base by (simp add: mainCrawl_def crawlWebsite_def Let_def)
    have urls: "r_urls ?result = [] \<longleftrightarrow> discoveredUrls ?final = []"
      by (simp add: sort_Nil_iff)
    have w: "written ?rep = None \<longleftrightarrow> discoveredUrls ?final = []"
    proof (cases "discoveredUrls ?final = []")
      case True
      then show ?thesis using reportResult_no_urls(1) [of ?result] urls by simp
    next
      case False
      then show ?thesis using reportResult_some_urls [of ?result] urls by simp
    qed
    have p: "hd (printed ?rep) = no_urls_message
             \<and> (\<forall>e \<in> set (errors ?final). error_line e \<in> set (printed ?rep))"
      if "discoveredUrls ?final = []"
    proof -
      have "printed ?rep = no_urls_message #
             (if errors ?final = [] then []
              else ([CHR 0x0A] @ ''Errors encountered:'') # map error_line (errors ?final))"
        using reportResult_no_urls(2) [of ?result P decodeURIComponent baseUrl] urls that by simp
      then show ?thesis by auto
    qed
    show ?thesis
    proof (intro exI conjI)
      show "mainCrawl P decodeURIComponent websiteUrl maxPages maxDepth = Some ?rep"
        by (rule rep)
      show "written ?rep = None \<longleftrightarrow> discoveredUrls ?final = []"
        by (rule w)
      show "discoveredUrls ?final = [] \<longrightarrow>
              hd (printed ?rep) = no_urls_message
            \<and> (\<forall>e \<in> set (errors ?final). error_line e \<in> set (printed ?rep))"
        using p by (rule impI)
    qed
  qed
  show ?thesis
  proof (intro conjI impI)
    show "written (reportResult P decodeURIComponent baseUrl result) = None"
      if "r_urls result = []"
      using that by (rule reportResult_no_urls(1))
    show "printed (reportResult P decodeURIComponent baseUrl result)
            = no_urls_message #
              (if r_errors result = [] then []
               else ([CHR 0x0A] @ ''Errors encountered:'') # map error_line (r_errors result))"
      if "r_urls result = []"
      using that by (rule reportResult_no_urls(2))
    show "written (reportResult P decodeURIComponent baseUrl result)
            = Some (''url.txt'', join [CHR 0x0A]
                (extractPathnames (new_URL P) decodeURIComponent (r_urls result) baseUrl))"
      if "r_urls result \<noteq> []"
      using that by (rule reportResult_some_urls)
    show "includes_str no_urls_message ''No URLs discovered''"
      by (rule msg)
    show "\<exists>rep. mainCrawl P decodeURIComponent websiteUrl maxPages maxDepth = Some rep
           \<and> (written rep = None
                \<longleftrightarrow> discoveredUrls (crawlFinal P websiteUrl maxPages maxDepth baseUrl) = [])
           \<and> (discoveredUrls (crawlFinal P websiteUrl maxPages maxDepth baseUrl) = [] \<longrightarrow>
                 hd (printed rep) = no_urls_message
               \<and> (\<forall>e \<in> set (errors (crawlFinal P websiteUrl maxPages maxDepth baseUrl)).
                     error_line e \<in> set (printed rep)))"
      if "new_URL P websiteUrl = Some baseUrl"
      using that by (rule main)
  qed
qed

theorem no_urls_no_file_witness:
  "r_urls ex_result_no_urls = []
   \<and> written (reportResult ex_platform (\<lambda>s. Some s) ex_baseUrl ex_result_no_urls) = None
   \<and> printed (reportResult ex_platform (\<lambda>s. Some s) ex_baseUrl ex_result_no_urls)
       = [no_urls_message, [CHR 0x0A] @ ''Errors encountered:'',
          ''  - https://example.com/team/: HTTP 404'']
   \<and> r_urls ex_result_one_url \<noteq> []
   \<and> written (reportResult ex_platform (\<lambda>s. Some s) ex_baseUrl ex_result_one_url)
       = Some (''url.txt'', join [CHR 0x0A]
           (extractPathnames (new_URL ex_platform) (\<lambda>s. Some s) (r_urls ex_result_one_url)
              ex_baseUrl))
   \<and> new_URL ex_platform ''https://example.com/team/'' = Some ex_team_baseUrl
   \<and> discoveredUrls (crawlFinal ex_platform ''https://example.com/team/'' 50 2 ex_team_baseUrl) = []
   \<and> (\<exists>rep. mainCrawl ex_platform (\<lambda>s. Some s) ''https://example.com/team/'' 50 2 = Some rep
         \<and> written rep = None \<and> hd (printed rep) = no_urls_message)"
proof -
  have h1: "r_urls ex_result_no_urls = []"
    by (simp add: ex_result_no_urls_def)
  have h2: "r_urls ex_result_one_url \<noteq> []"
    by (simp add: ex_result_one_url_def)
  have h3: "new_URL ex_platform ''https://example.com/team/'' = Some ex_team_baseUrl"
    by (simp add: ex_platform_def ex_new_URL_def startsWith_def ex_team_baseUrl_def)
  have h4: "discoveredUrls (crawlFinal ex_platform ''https://example.com/team/'' 50 2 ex_team_baseUrl)
              = []"
    by code_simp
  have e: "r_errors ex_result_no_urls = [(''https://example.com/team/'', ''HTTP 404'')]"
    by (simp add: ex_result_no_urls_def)
  show ?thesis
    using h1 h2 h3 h4
      no_urls_no_file
        [of ex_result_no_urls ex_platform "\<lambda>s. Some s" ex_baseUrl
            "''https://example.com/team/''" 50 2]
      no_urls_no_file
        [of ex_result_one_url ex_platform "\<lambda>s. Some s" ex_baseUrl
            "''https://example.com/team/''" 50 2]
      no_urls_no_file
        [of ex_result_no_urls ex_platform "\<lambda>s. Some s" ex_team_baseUrl
            "''https://example.com/team/''" 50 2]
    by (auto simp: error_line_def e)
qed


section \<open>Every sitemap is fetched once, and the walk ends\<close>

text \<open>
  Claim C9. When the responses mention finitely many sitemap URLs, the loop of
  \<open>collectAllUrls\<close> ends from every state, so \<open>collectAllUrls\<close> returns; it ends with
  an empty queue, and the requests it has made are the one for \<open>robots.txt\<close> followed by
  one request for each member of \<open>seenSitemaps\<close>, no URL twice. Each step of the loop
  keeps this: a queued URL is skipped when it is seen, and else marked seen as it is
  fetched. Sitemap indexes that name each other are no obstacle.
\<close>

theorem sitemaps_fetched_once:
  assumes "finite (mentioned S)"
  shows "(\<exists>final. collectLoop S st = Some final)
         \<and> (\<exists>final. collectFinal S baseUrl = Some final
               \<and> queue final = []
               \<and> distinct (seenSitemaps final)
               \<and> requests final = (baseUrl @ ''/robots.txt'') # seenSitemaps final)
         \<and> (\<exists>found. collectAllUrls S baseUrl = Some found)
         \<and> (sitemap_inv n st \<longrightarrow> sitemap_inv n (collectStep S st))"
proof -
  let ?init = "\<lparr> queue = getRobotsSitemaps S baseUrl, seenSitemaps = [], urls_found = [],
                 processedCount = 0, requests = [baseUrl @ ''/robots.txt''] \<rparr>"
  obtain universe where universe: "set universe = mentioned S"
    using assms finite_list by blast
  have sub: "set (extractLocs S xml) \<subseteq> set universe"
    if "fetchText S log url = Inr xml" and "isSitemapIndex S xml" for log url xml
    using that universe by (auto simp: mentioned_def)
  have ends: "\<exists>final. collectLoop S s = Some final" for s
    using sub by (rule collectLoop_terminates)
  then obtain final where final: "collectLoop S ?init = Some final"
    by blast
  have "sitemap_inv [baseUrl @ ''/robots.txt''] ?init"
    by (simp add: sitemap_inv_def)
  then have inv: "sitemap_inv [baseUrl @ ''/robots.txt''] final" and q: "queue final = []"
    using collectLoop_inv [OF final] by simp_all
  have fin: "collectFinal S baseUrl = Some final"
    using final by (simp add: collectFinal_def)
  have "\<exists>final. collectFinal S baseUrl = Some final
               \<and> queue final = []
               \<and> distinct (seenSitemaps final)
               \<and> requests final = (baseUrl @ ''/robots.txt'') # seenSitemaps final"
    using fin q inv by (simp add: sitemap_inv_def)
  moreover have "\<exists>found. collectAllUrls S baseUrl = Some found"
    using fin by (simp add: collectAllUrls_def)
  ultimately show ?thesis
    using ends [of st] collectStep_inv [of n st S] by blast
qed

theorem sitemaps_fetched_once_witness:
  "finite (mentioned ex_sitemap_platform)
   \<and> (\<exists>final. collectFinal ex_sitemap_platform ''https://example.com'' = Some final
         \<and> queue final = []
         \<and> distinct (seenSitemaps final)
         \<and> requests final = (''https://example.com'' @ ''/robots.txt'') # seenSitemaps final)
   \<and> (\<exists>found. collectAllUrls ex_sitemap_platform ''https://example.com'' = Some found)"
proof -
  have h: "finite (mentioned ex_sitemap_platform)"
    using ex_sitemap_mentioned finite_subset by blast
  show ?thesis
    using h sitemaps_fetched_once [OF h, where baseUrl = "''https://example.com''"]
    by simp
qed

text \<open>The walk of the example, whose two sitemap indexes name each other.\<close>

lemma collectAllUrls_example:
  "collectAllUrls ex_sitemap_platform ''https://example.com''
     = Some [''https://example.com/'', ''https://example.com/about'']"
  by code_simp

end
